theory Spec2Isabelle
  imports Complex_Main "HOL-Library.Log_Nat"
begin

section \<open>Python strings\<close>

text \<open>
  A Python \<open>str\<close> is a sequence of Unicode code points; \<open>len\<close> counts code points.
  A code point is a natural number, so the bullet glyphs of the converter (U+2022 and
  U+25CB) are single characters, as they are in Python.
\<close>

type_synonym pychar = nat
type_synonym pystr = "pychar list"

definition ustr :: "string \<Rightarrow> pystr" where
  "ustr s = map of_char s"

definition bullet_glyph :: pychar where
  "bullet_glyph = 8226"

definition circle_glyph :: pychar where
  "circle_glyph = 9675"

text \<open>
  The character tables of the Python runtime (the Unicode database) are not part of the
  converter. They are a parameter of every function that consults them: the per-character
  predicates behind \<open>str.strip\<close>, \<open>str.isupper\<close>, \<open>str.isdigit\<close> and the regular
  expression class \<open>\d\<close>, and the string function \<open>str.lower\<close>.
\<close>

record unicode =
  ch_isspace :: "pychar \<Rightarrow> bool"
  ch_isupper :: "pychar \<Rightarrow> bool"
  ch_islower :: "pychar \<Rightarrow> bool"
  ch_istitle :: "pychar \<Rightarrow> bool"
  ch_isdigit :: "pychar \<Rightarrow> bool"
  ch_isdecimal :: "pychar \<Rightarrow> bool"
  str_lower :: "pystr \<Rightarrow> pystr"

datatype error = IndexError | ZeroDivisionError | OSError

text \<open>\<open>s.strip()\<close>: leading and trailing whitespace removed.\<close>

definition str_strip :: "unicode \<Rightarrow> pystr \<Rightarrow> pystr" where
  "str_strip U s = rev (dropWhile (ch_isspace U) (rev (dropWhile (ch_isspace U) s)))"

text \<open>
  \<open>s.isupper()\<close>: no character is lowercase or titlecase and some character is
  uppercase; for a string of one character, whether that character is uppercase.
\<close>

definition str_isupper :: "unicode \<Rightarrow> pystr \<Rightarrow> bool" where
  "str_isupper U s =
     (case s of
        [c] \<Rightarrow> ch_isupper U c
      | _ \<Rightarrow> \<not> list_ex (\<lambda>c. ch_islower U c \<or> ch_istitle U c) s \<and> list_ex (ch_isupper U) s)"

text \<open>\<open>s.isdigit()\<close>: the string is not empty and every character is a digit.\<close>

definition str_isdigit :: "unicode \<Rightarrow> pystr \<Rightarrow> bool" where
  "str_isdigit U s = (s \<noteq> [] \<and> list_all (ch_isdigit U) s)"

definition startswith :: "pystr \<Rightarrow> pystr \<Rightarrow> bool" where
  "startswith s p = (take (length p) s = p)"

definition endswith :: "pystr \<Rightarrow> pystr \<Rightarrow> bool" where
  "endswith s p = (length p \<le> length s \<and> drop (length s - length p) s = p)"

text \<open>\<open>w in s\<close>: \<open>w\<close> occurs in \<open>s\<close> as a contiguous substring.\<close>

primrec contains :: "pystr \<Rightarrow> pystr \<Rightarrow> bool" where
  "contains [] w = (w = [])"
| "contains (c # cs) w = (startswith (c # cs) w \<or> contains cs w)"

text \<open>\<open>s[0]\<close> raises IndexError on the empty string.\<close>

definition getitem0 :: "pystr \<Rightarrow> error + pystr" where
  "getitem0 s = (case s of [] \<Rightarrow> Inl IndexError | c # _ \<Rightarrow> Inr [c])"

text \<open>\<open>s[0].isupper()\<close>\<close>

definition first_isupper :: "unicode \<Rightarrow> pystr \<Rightarrow> error + bool" where
  "first_isupper U s = (case getitem0 s of Inl e \<Rightarrow> Inl e | Inr c \<Rightarrow> Inr (str_isupper U c))"

text \<open>
  Python's \<open>and\<close> and \<open>or\<close> evaluate the right operand only when the left one does not
  decide the result; an exception raised by an operand that is evaluated propagates.
\<close>

definition and_e :: "error + bool \<Rightarrow> error + bool \<Rightarrow> error + bool" where
  "and_e a b = (case a of Inl e \<Rightarrow> Inl e | Inr x \<Rightarrow> if x then b else Inr False)"

definition or_e :: "error + bool \<Rightarrow> error + bool \<Rightarrow> error + bool" where
  "or_e a b = (case a of Inl e \<Rightarrow> Inl e | Inr x \<Rightarrow> if x then Inr True else b)"

text \<open>\<open>any(word in s for word in ws)\<close>\<close>

definition any_in :: "pystr list \<Rightarrow> pystr \<Rightarrow> bool" where
  "any_in ws s = list_ex (\<lambda>w. contains s w) ws"

section \<open>Line tests of \<open>SimplePDFConverter\<close>\<close>

definition main_title_keywords :: "pystr list" where
  "main_title_keywords = map ustr
     [''overview'', ''introduction'', ''benefits'', ''features'', ''solution'',
      ''services'', ''why'', ''how'', ''what'', ''branded calling'', ''productivity'',
      ''appendix'', ''methodology'', ''verizon'', ''empowerment'']"

definition subtitle_keywords :: "pystr list" where
  "subtitle_keywords = map ustr
     [''create'', ''project'', ''customer'', ''workshop'', ''deliverables'',
      ''findings'', ''different'', ''calling'', ''profiles'', ''answer'', ''quandary'']"

definition is_main_title :: "unicode \<Rightarrow> pystr \<Rightarrow> error + bool" where
  "is_main_title U line =
     (if line = [] \<or> length line > 150 then Inr False
      else if length line < 80 \<and> str_isupper U line then Inr True
      else and_e (Inr (length line < 100))
          (and_e (Inr (\<not> endswith line (ustr ''.'')))
          (and_e (Inr (\<not> endswith line (ustr '','')))
          (and_e (first_isupper U line)
                 (Inr (any_in main_title_keywords (str_lower U line)))))))"

definition is_subtitle :: "unicode \<Rightarrow> pystr \<Rightarrow> error + bool" where
  "is_subtitle U line =
     (if line = [] \<or> length line > 120 then Inr False
      else and_e (Inr (length line < 120))
          (and_e (first_isupper U line)
                 (Inr (endswith line (ustr ''?'') \<or>
                       (\<not> endswith line (ustr ''.'') \<and> \<not> endswith line (ustr '','')) \<and>
                       any_in subtitle_keywords (str_lower U line)))))"

text \<open>
  \<open>is_bullet_point\<close>: the line starts with one of the four glyphs, or with one of the
  ten strings \<open>0.\<close> ... \<open>9.\<close>.
\<close>

definition bullet_markers :: "pystr list" where
  "bullet_markers = [[bullet_glyph], ustr ''-'', ustr ''*'', [circle_glyph]]"

definition digit_dot_prefixes :: "pystr list" where
  "digit_dot_prefixes = map (\<lambda>i. [48 + i, 46]) [0..<10]"

definition is_bullet_point :: "pystr \<Rightarrow> bool" where
  "is_bullet_point line =
     (list_ex (startswith line) bullet_markers \<or> list_ex (startswith line) digit_dot_prefixes)"

text \<open>
  \<open>clean_bullet_point\<close>: the first marker the line starts with is cut off and the rest
  stripped; otherwise a leading \<open>\d+\.\<close> and the whitespace after it are cut off.
\<close>

definition clean_bullet_point :: "unicode \<Rightarrow> pystr \<Rightarrow> pystr" where
  "clean_bullet_point U line =
     (if list_ex (startswith line) bullet_markers then str_strip U (drop 1 line)
      else let rest = dropWhile (ch_isdecimal U) line in
        if takeWhile (ch_isdecimal U) line \<noteq> [] \<and> startswith rest (ustr ''.'')
        then dropWhile (ch_isspace U) (drop 1 rest)
        else line)"

section \<open>The output document\<close>

text \<open>
  The document writer is used through four operations only, each appending at the end:
  \<open>add_heading(text, level)\<close>, \<open>add_paragraph(text, style='List Bullet')\<close>,
  \<open>add_paragraph()\<close> with \<open>add_run\<close> on the paragraph it returned, and \<open>add_table\<close>.
  A document is the list of what was appended. A paragraph object is referred to by its
  position in that list, so that \<open>add_run\<close> on a held paragraph is an update in place.
\<close>

datatype block =
    Heading nat pystr
  | Paragraph pystr
  | ListItem pystr
  | Table "pystr list list"

record asm_state =
  doc :: "block list"
  current_paragraph :: "nat option"

text \<open>\<open>paragraph.text\<close> and \<open>paragraph.add_run(s)\<close> for the paragraph at position \<open>p\<close>.\<close>

definition paragraph_text :: "block list \<Rightarrow> nat \<Rightarrow> pystr" where
  "paragraph_text d p =
     (if p < length d then (case d ! p of Paragraph t \<Rightarrow> t | _ \<Rightarrow> []) else [])"

definition add_run :: "block list \<Rightarrow> nat \<Rightarrow> pystr \<Rightarrow> block list" where
  "add_run d p s =
     (if p < length d then d[p := (case d ! p of Paragraph t \<Rightarrow> Paragraph (t @ s) | b \<Rightarrow> b)]
      else d)"

section \<open>\<open>process_text_content\<close>\<close>

text \<open>The lookahead \<open>text_lines[i + 1].strip() if i + 1 < len(text_lines) else ""\<close>.\<close>

definition next_line_of :: "unicode \<Rightarrow> pystr list \<Rightarrow> pystr" where
  "next_line_of U rest = (case rest of [] \<Rightarrow> [] | n # _ \<Rightarrow> str_strip U n)"

definition ends_sentence :: "pystr \<Rightarrow> bool" where
  "ends_sentence line =
     (endswith line (ustr ''.'') \<or> endswith line (ustr '':'') \<or>
      endswith line (ustr ''!'') \<or> endswith line (ustr ''?''))"

text \<open>
  The condition of the last \<open>if\<close> of the loop body. Python parses
  \<open>a or b or c or d or e if next_line else False\<close> as
  \<open>(a or b or c or d or e) if next_line else False\<close>: the conditional expression binds
  weaker than \<open>or\<close>.
\<close>

definition closes_paragraph :: "unicode \<Rightarrow> pystr \<Rightarrow> error + bool" where
  "closes_paragraph U next_line =
     (if next_line \<noteq> [] then
        or_e (Inr (next_line = []))
       (or_e (is_main_title U next_line)
       (or_e (is_subtitle U next_line)
       (or_e (Inr (is_bullet_point next_line))
             (first_isupper U next_line))))
      else Inr False)"

text \<open>
  One iteration of the loop over \<open>enumerate(text_lines)\<close>: \<open>raw\<close> is \<open>text_lines[i]\<close>
  and \<open>rest\<close> the lines after it.
\<close>

definition process_line :: "unicode \<Rightarrow> pystr \<Rightarrow> pystr list \<Rightarrow> asm_state \<Rightarrow> error + asm_state" where
  "process_line U raw rest st =
     (let line = str_strip U raw in
      if line = [] then Inr (st\<lparr>current_paragraph := None\<rparr>)
      else if str_isdigit U line \<and> length line \<le> 3 then Inr st
      else (case is_main_title U line of Inl e \<Rightarrow> Inl e | Inr mt \<Rightarrow>
        if mt then Inr \<lparr>doc = doc st @ [Heading 1 line], current_paragraph = None\<rparr>
        else (case is_subtitle U line of Inl e \<Rightarrow> Inl e | Inr sub \<Rightarrow>
          if sub then Inr \<lparr>doc = doc st @ [Heading 2 line], current_paragraph = None\<rparr>
          else if is_bullet_point line
          then Inr \<lparr>doc = doc st @ [ListItem (clean_bullet_point U line)],
                    current_paragraph = None\<rparr>
          else
            let (d1, p) = (case current_paragraph st of
                             None \<Rightarrow> (doc st @ [Paragraph []], length (doc st))
                           | Some q \<Rightarrow> (doc st, q));
                d2 = add_run d1 p (if paragraph_text d1 p \<noteq> [] then 32 # line else line)
            in if ends_sentence line then
                 (case closes_paragraph U (next_line_of U rest) of
                    Inl e \<Rightarrow> Inl e
                  | Inr c \<Rightarrow> Inr \<lparr>doc = d2,
                                  current_paragraph = (if c then None else Some p)\<rparr>)
               else Inr \<lparr>doc = d2, current_paragraph = Some p\<rparr>)))"

fun process_lines :: "unicode \<Rightarrow> pystr list \<Rightarrow> asm_state \<Rightarrow> error + asm_state" where
  "process_lines U [] st = Inr st"
| "process_lines U (raw # rest) st =
     (case process_line U raw rest st of
        Inl e \<Rightarrow> Inl e
      | Inr st' \<Rightarrow> process_lines U rest st')"

definition process_text_content :: "unicode \<Rightarrow> block list \<Rightarrow> pystr list \<Rightarrow> error + block list" where
  "process_text_content U d text_lines =
     (case process_lines U text_lines \<lparr>doc = d, current_paragraph = None\<rparr> of
        Inl e \<Rightarrow> Inl e
      | Inr st \<Rightarrow> Inr (doc st))"

text \<open>
  The branch of the loop body a stripped line takes, as a tag: the tests of
  \<open>process_line\<close> in their order, without the actions.
\<close>

datatype category = Blank | PageNumber | MainTitle | Subtitle | BulletItem | PlainText

definition classify :: "unicode \<Rightarrow> pystr \<Rightarrow> error + category" where
  "classify U line =
     (if line = [] then Inr Blank
      else if str_isdigit U line \<and> length line \<le> 3 then Inr PageNumber
      else (case is_main_title U line of Inl e \<Rightarrow> Inl e | Inr mt \<Rightarrow>
        if mt then Inr MainTitle
        else (case is_subtitle U line of Inl e \<Rightarrow> Inl e | Inr sub \<Rightarrow>
          if sub then Inr Subtitle
          else if is_bullet_point line then Inr BulletItem
          else Inr PlainText)))"

section \<open>Tables\<close>

type_synonym cell = "pystr option"
type_synonym raw_table = "cell list list"

text \<open>\<open>cell and str(cell).strip()\<close>, as a truth value.\<close>

definition cell_has_content :: "unicode \<Rightarrow> cell \<Rightarrow> bool" where
  "cell_has_content U c = (case c of None \<Rightarrow> False | Some s \<Rightarrow> s \<noteq> [] \<and> str_strip U s \<noteq> [])"

text \<open>
  Python floats are IEEE 754 binary64 numbers: 53 significant bits, results rounded to
  the nearest representable number, ties to the one with an even significand. A finite
  float is a rational number and is represented by it. \<open>rne\<close> rounds a rational to the
  nearest integer, ties to even.
\<close>

definition rne :: "rat \<Rightarrow> int" where
  "rne x =
     (let n = \<lfloor>x\<rfloor>; r = x - of_int n in
      if r < 1 / 2 then n else if 1 / 2 < r then n + 1
      else if even n then n else n + 1)"

text \<open>The exponent \<open>e\<close> with \<open>2 ^ e \<le> a / b < 2 ^ (e + 1)\<close>, for positive \<open>a\<close> and \<open>b\<close>.\<close>

definition quotient_exponent :: "nat \<Rightarrow> nat \<Rightarrow> int" where
  "quotient_exponent a b =
     (let d = int (floorlog 2 a) - int (floorlog 2 b) in
      if (2::rat) powi d \<le> of_nat a / of_nat b then d else d - 1)"

text \<open>
  The float nearest to \<open>a / b\<close>: the quotient is scaled to a significand of 53 bits,
  rounded, and scaled back. The exponent range of binary64 is not modelled; a quotient
  \<open>a / b\<close> with \<open>a \<le> b\<close> is in the normal range as long as \<open>b\<close> is below \<open>2 ^ 1022\<close>.
\<close>

definition float_div :: "nat \<Rightarrow> nat \<Rightarrow> rat" where
  "float_div a b =
     (if a = 0 then 0
      else let e = quotient_exponent a b in
        of_int (rne (of_nat a / of_nat b * 2 powi (52 - e))) * 2 powi (e - 52))"

text \<open>
  \<open>a / b\<close> on two ints is the correctly rounded quotient, and raises ZeroDivisionError
  for \<open>b = 0\<close>. The literal \<open>0.3\<close> is the float nearest to 3/10.
\<close>

definition truediv :: "nat \<Rightarrow> nat \<Rightarrow> error + rat" where
  "truediv a b = (if b = 0 then Inl ZeroDivisionError else Inr (float_div a b))"

definition literal_0_3 :: rat where
  "literal_0_3 = float_div 3 10"

definition count_cells :: "unicode \<Rightarrow> raw_table \<Rightarrow> nat \<times> nat" where
  "count_cells U table_data =
     fold (\<lambda>row acc.
             fold (\<lambda>c (cells_with_content, total_cells).
                     (if cell_has_content U c then cells_with_content + 1
                      else cells_with_content, total_cells + 1)) row acc)
          table_data (0, 0)"

definition has_meaningful_content :: "unicode \<Rightarrow> raw_table \<Rightarrow> error + bool" where
  "has_meaningful_content U table_data =
     (if table_data = [] then Inr False
      else case count_cells U table_data of (cells_with_content, total_cells) \<Rightarrow>
        and_e (Inr (total_cells > 0))
              (case truediv cells_with_content total_cells of
                 Inl e \<Rightarrow> Inl e
               | Inr q \<Rightarrow> Inr (q \<ge> literal_0_3)))"

text \<open>
  \<open>add_table_to_document\<close>. The table is created with \<open>len(clean_data)\<close> rows and
  \<open>max_cols\<close> columns of empty cells, then the cells are written one by one; an empty
  paragraph follows the table. Its \<open>try\<close> block only guards the document writer.
\<close>

definition clean_cell :: "unicode \<Rightarrow> cell \<Rightarrow> pystr" where
  "clean_cell U c = (case c of Some s \<Rightarrow> str_strip U s | None \<Rightarrow> [])"

definition fill_row :: "pystr list list \<Rightarrow> nat \<Rightarrow> pystr list \<Rightarrow> pystr list list" where
  "fill_row g i row_data =
     fold (\<lambda>(j, cell_data) g.
             if j < length (g ! i) then g[i := (g ! i)[j := cell_data]] else g)
          (enumerate 0 row_data) g"

definition fill_table :: "pystr list list \<Rightarrow> pystr list list \<Rightarrow> pystr list list" where
  "fill_table g clean_data =
     fold (\<lambda>(i, row_data) g. fill_row g i row_data) (enumerate 0 clean_data) g"

definition add_table_to_document :: "unicode \<Rightarrow> block list \<Rightarrow> raw_table \<Rightarrow> block list" where
  "add_table_to_document U d table_data =
     (if (case table_data of [] \<Rightarrow> True | row0 # _ \<Rightarrow> row0 = []) then d
      else let clean_data = map (map (clean_cell U)) table_data in
        if \<not> list_ex (list_ex (\<lambda>c. c \<noteq> [])) clean_data then d
        else let max_cols = (if clean_data \<noteq> [] then fold max (map length clean_data) 0 else 0) in
          if max_cols = 0 then d
          else d @ [Table (fill_table (replicate (length clean_data) (replicate max_cols []))
                             clean_data),
                    Paragraph []])"

section \<open>\<open>create_word_document\<close>\<close>

record page_content =
  page_number :: nat
  page_text :: pystr
  page_tables :: "raw_table list"

text \<open>\<open>s.split('\n')\<close>\<close>

fun split_lines :: "pystr \<Rightarrow> pystr list" where
  "split_lines [] = [[]]"
| "split_lines (c # cs) =
     (if c = 10 then [] # split_lines cs
      else (case split_lines cs of [] \<Rightarrow> [[c]] | l # ls \<Rightarrow> (c # l) # ls))"

text \<open>\<open>table_data and self.has_meaningful_content(table_data)\<close>\<close>

definition keep_table :: "unicode \<Rightarrow> raw_table \<Rightarrow> error + bool" where
  "keep_table U table_data = and_e (Inr (table_data \<noteq> [])) (has_meaningful_content U table_data)"

fun collect_tables :: "unicode \<Rightarrow> raw_table list \<Rightarrow> raw_table list \<Rightarrow> error + raw_table list" where
  "collect_tables U [] all_tables = Inr all_tables"
| "collect_tables U (table_data # ts) all_tables =
     (case keep_table U table_data of
        Inl e \<Rightarrow> Inl e
      | Inr k \<Rightarrow> collect_tables U ts (if k then all_tables @ [table_data] else all_tables))"

fun collect_pages ::
  "unicode \<Rightarrow> page_content list \<Rightarrow> pystr list \<times> raw_table list
     \<Rightarrow> error + (pystr list \<times> raw_table list)" where
  "collect_pages U [] acc = Inr acc"
| "collect_pages U (page_info # ps) (all_text_lines, all_tables) =
     (case collect_tables U (page_tables page_info) all_tables of
        Inl e \<Rightarrow> Inl e
      | Inr tabs \<Rightarrow>
          collect_pages U ps (all_text_lines @ split_lines (page_text page_info), tabs))"

definition create_word_document :: "unicode \<Rightarrow> page_content list \<Rightarrow> error + block list" where
  "create_word_document U content =
     (case collect_pages U content ([], []) of
        Inl e \<Rightarrow> Inl e
      | Inr (all_text_lines, all_tables) \<Rightarrow>
          (case process_text_content U [] all_text_lines of
             Inl e \<Rightarrow> Inl e
           | Inr d \<Rightarrow>
               Inr (fold (\<lambda>table_data d. add_table_to_document U d table_data) all_tables d)))"

section \<open>Conversion of files\<close>

text \<open>
  The collaborators of the converter, as functions of their arguments: what
  \<open>Path(p).exists()\<close> does, which is to return a truth value or to raise (it passes on
  the errors of the file system that do not mean that the file is missing, such as a
  name that is too long or a directory that may not be searched); what pdfplumber yields
  for a path (\<open>None\<close> when anything inside the \<open>try\<close> of \<open>extract_text_from_pdf\<close> raises,
  else for each page its extracted text, if any, and its tables); \<open>Path(p).stem\<close>;
  \<open>str(self.output_folder / name)\<close>; and whether \<open>doc.save\<close> returns (\<open>True\<close>) or
  raises (\<open>False\<close>).
\<close>

record environment =
  path_exists :: "pystr \<Rightarrow> error + bool"
  plumber_pages :: "pystr \<Rightarrow> (pystr option \<times> raw_table list) list option"
  path_stem :: "pystr \<Rightarrow> pystr"
  output_path :: "pystr \<Rightarrow> pystr"
  doc_save :: "pystr \<Rightarrow> block list \<Rightarrow> bool"

text \<open>
  \<open>validate_pdf_files\<close> has no \<open>try\<close>: an error raised by the existence check of a path
  ends the loop and is the outcome.
\<close>

primrec validate_pdf_files ::
  "unicode \<Rightarrow> environment \<Rightarrow> pystr list \<Rightarrow> error + pystr list" where
  "validate_pdf_files U env [] = Inr []"
| "validate_pdf_files U env (pdf_file # fs) =
     (if \<not> endswith (str_lower U pdf_file) (ustr ''.pdf'') then validate_pdf_files U env fs
      else (case path_exists env pdf_file of
              Inl e \<Rightarrow> Inl e
            | Inr ex \<Rightarrow>
                if \<not> ex then validate_pdf_files U env fs
                else (case validate_pdf_files U env fs of
                        Inl e \<Rightarrow> Inl e
                      | Inr valid_pdfs \<Rightarrow> Inr (pdf_file # valid_pdfs))))"

definition extract_text_from_pdf :: "unicode \<Rightarrow> environment \<Rightarrow> pystr \<Rightarrow> page_content list" where
  "extract_text_from_pdf U env pdf_path =
     (case plumber_pages env pdf_path of
        None \<Rightarrow> []
      | Some pages \<Rightarrow>
          concat (map (\<lambda>(i, (t, tabs)).
                         case t of
                           None \<Rightarrow> []
                         | Some s \<Rightarrow>
                             if s \<noteq> [] then
                               [\<lparr>page_number = i + 1, page_text = str_strip U s,
                                 page_tables = tabs\<rparr>]
                             else [])
                      (enumerate 0 pages)))"

text \<open>
  \<open>convert_pdf_to_word\<close>: every exception raised inside its \<open>try\<close> is caught and turned
  into the result \<open>None\<close>.
\<close>

definition convert_pdf_to_word :: "unicode \<Rightarrow> environment \<Rightarrow> pystr \<Rightarrow> pystr option" where
  "convert_pdf_to_word U env pdf_path =
     (let content = extract_text_from_pdf U env pdf_path in
      if content = [] then None
      else let pdf_name = path_stem env pdf_path;
               word_filename = pdf_name @ ustr ''.docx'';
               word_path = output_path env word_filename
        in case create_word_document U content of
             Inl e \<Rightarrow> None
           | Inr d \<Rightarrow> if doc_save env word_path d then Some word_path else None)"

record file_entry =
  pdf :: pystr
  word :: "pystr option"
  status :: string

record batch_result =
  successful :: nat
  failed :: nat
  files :: "file_entry list"

text \<open>The body of the loop of \<open>convert_all\<close>; \<open>if word_file\<close> is false for \<open>None\<close> and for the empty string.\<close>

definition record_conversion :: "unicode \<Rightarrow> environment \<Rightarrow> pystr \<Rightarrow> batch_result \<Rightarrow> batch_result" where
  "record_conversion U env pdf_file results =
     (let word_file = convert_pdf_to_word U env pdf_file in
      if (case word_file of None \<Rightarrow> False | Some w \<Rightarrow> w \<noteq> []) then
        results\<lparr>successful := successful results + 1,
                files := files results @ [\<lparr>pdf = pdf_file, word = word_file, status = ''success''\<rparr>]\<rparr>
      else
        results\<lparr>failed := failed results + 1,
                files := files results @ [\<lparr>pdf = pdf_file, word = None, status = ''failed''\<rparr>]\<rparr>)"

text \<open>
  \<open>convert_all\<close> calls \<open>validate_pdf_files\<close> outside of any \<open>try\<close>, so what that raises is
  raised by \<open>convert_all\<close>.
\<close>

definition convert_all :: "unicode \<Rightarrow> environment \<Rightarrow> pystr list \<Rightarrow> error + batch_result" where
  "convert_all U env pdf_files =
     (case validate_pdf_files U env pdf_files of
        Inl e \<Rightarrow> Inl e
      | Inr valid_pdfs \<Rightarrow>
          if valid_pdfs = [] then Inr \<lparr>successful = 0, failed = 0, files = []\<rparr>
          else Inr (fold (record_conversion U env) valid_pdfs
                      \<lparr>successful = 0, failed = 0, files = []\<rparr>))"

section \<open>Reference definitions for the properties\<close>

text \<open>
  A character table agrees with Python on ASCII when its predicates give Python's answers
  on the code points below 128; the bullet glyph U+2022 is not an uppercase letter.
\<close>

definition ascii_chars :: "unicode \<Rightarrow> bool" where
  "ascii_chars U =
     ((\<forall>c<128. ch_isupper U c = (65 \<le> c \<and> c \<le> 90) \<and>
               ch_islower U c = (97 \<le> c \<and> c \<le> 122) \<and>
               \<not> ch_istitle U c \<and>
               ch_isspace U c = ((9 \<le> c \<and> c \<le> 13) \<or> (28 \<le> c \<and> c \<le> 32)) \<and>
               ch_isdigit U c = (48 \<le> c \<and> c \<le> 57)) \<and>
      \<not> ch_isupper U bullet_glyph)"

text \<open>
  The table that knows ASCII only: every code point from 128 on is caseless and neither
  whitespace nor a digit.
\<close>

definition py_ascii :: unicode where
  "py_ascii =
     \<lparr>ch_isspace = (\<lambda>c. (9 \<le> c \<and> c \<le> 13) \<or> (28 \<le> c \<and> c \<le> 32)),
      ch_isupper = (\<lambda>c. 65 \<le> c \<and> c \<le> 90),
      ch_islower = (\<lambda>c. 97 \<le> c \<and> c \<le> 122),
      ch_istitle = (\<lambda>c. False),
      ch_isdigit = (\<lambda>c. 48 \<le> c \<and> c \<le> 57),
      ch_isdecimal = (\<lambda>c. 48 \<le> c \<and> c \<le> 57),
      str_lower = map (\<lambda>c. if 65 \<le> c \<and> c \<le> 90 then c + 32 else c)\<rparr>"

text \<open>The first test of a priority list that holds decides; \<open>d\<close> when none holds.\<close>

fun first_match :: "(('a \<Rightarrow> bool) \<times> 'b) list \<Rightarrow> 'b \<Rightarrow> 'a \<Rightarrow> 'b" where
  "first_match [] d x = d"
| "first_match ((t, c) # ts) d x = (if t x then c else first_match ts d x)"

text \<open>
  The priority list of the line classifier: the tests of the loop body, each with the
  category it decides on.
\<close>

definition priority_tests :: "unicode \<Rightarrow> ((pystr \<Rightarrow> bool) \<times> category) list" where
  "priority_tests U =
     [(\<lambda>l. l = [], Blank),
      (\<lambda>l. str_isdigit U l \<and> length l \<le> 3, PageNumber),
      (\<lambda>l. is_main_title U l = Inr True, MainTitle),
      (\<lambda>l. is_subtitle U l = Inr True, Subtitle),
      (is_bullet_point, BulletItem)]"

text \<open>
  What the assembler does with a stripped line of plain text: the line goes to the open
  paragraph, or to a new one, and the paragraph is closed if the line ends a sentence and
  the next line asks for it.
\<close>

definition plain_text_line ::
  "unicode \<Rightarrow> pystr \<Rightarrow> pystr list \<Rightarrow> asm_state \<Rightarrow> error + asm_state" where
  "plain_text_line U line rest st =
     (let (d1, p) = (case current_paragraph st of
                       None \<Rightarrow> (doc st @ [Paragraph []], length (doc st))
                     | Some q \<Rightarrow> (doc st, q));
          d2 = add_run d1 p (if paragraph_text d1 p \<noteq> [] then 32 # line else line)
      in if ends_sentence line then
           (case closes_paragraph U (next_line_of U rest) of
              Inl e \<Rightarrow> Inl e
            | Inr c \<Rightarrow> Inr \<lparr>doc = d2, current_paragraph = (if c then None else Some p)\<rparr>)
         else Inr \<lparr>doc = d2, current_paragraph = Some p\<rparr>)"

text \<open>What the assembler does with a stripped line of a given category.\<close>

definition category_action ::
  "unicode \<Rightarrow> category \<Rightarrow> pystr \<Rightarrow> pystr list \<Rightarrow> asm_state \<Rightarrow> error + asm_state" where
  "category_action U k line rest st =
     (case k of
        Blank \<Rightarrow> Inr (st\<lparr>current_paragraph := None\<rparr>)
      | PageNumber \<Rightarrow> Inr st
      | MainTitle \<Rightarrow> Inr \<lparr>doc = doc st @ [Heading 1 line], current_paragraph = None\<rparr>
      | Subtitle \<Rightarrow> Inr \<lparr>doc = doc st @ [Heading 2 line], current_paragraph = None\<rparr>
      | BulletItem \<Rightarrow>
          Inr \<lparr>doc = doc st @ [ListItem (clean_bullet_point U line)],
               current_paragraph = None\<rparr>
      | PlainText \<Rightarrow> plain_text_line U line rest st)"

text \<open>A cell is filled when it is present and its trimmed string is not empty.\<close>

definition spec_filled :: "unicode \<Rightarrow> cell \<Rightarrow> bool" where
  "spec_filled U c = (case c of None \<Rightarrow> False | Some s \<Rightarrow> str_strip U s \<noteq> [])"

text \<open>A line of 120 characters: \<open>W\<close>, 118 times \<open>d\<close>, and a question mark.\<close>

definition line_120 :: pystr where
  "line_120 = ustr ''W'' @ replicate 118 100 @ ustr ''?''"

text \<open>A row padded on the right with empty strings to width \<open>w\<close>.\<close>

definition pad_row :: "nat \<Rightarrow> pystr list \<Rightarrow> pystr list" where
  "pad_row w row = row @ replicate (w - length row) []"

text \<open>The maximum row length of a table.\<close>

definition table_width :: "'a list list \<Rightarrow> nat" where
  "table_width t = Max (set (map length t))"

text \<open>
  The grid a raw table is expected to be rendered as: every cell cleaned, every row padded
  to the width of the table.
\<close>

definition rendered_table :: "unicode \<Rightarrow> raw_table \<Rightarrow> pystr list list" where
  "rendered_table U t = map (\<lambda>row. pad_row (table_width t) (map (clean_cell U) row)) t"

definition is_table :: "block \<Rightarrow> bool" where
  "is_table b = (case b of Table _ \<Rightarrow> True | _ \<Rightarrow> False)"

text \<open>The two checks of \<open>validate_pdf_files\<close> on one path.\<close>

definition valid_pdf :: "unicode \<Rightarrow> environment \<Rightarrow> pystr \<Rightarrow> bool" where
  "valid_pdf U env f =
     (endswith (str_lower U f) (ustr ''.pdf'') \<and> path_exists env f = Inr True)"

text \<open>Every existence check that validation makes on the paths \<open>fs\<close> returns.\<close>

definition checks_return :: "unicode \<Rightarrow> environment \<Rightarrow> pystr list \<Rightarrow> bool" where
  "checks_return U env fs =
     (\<forall>f \<in> set fs. endswith (str_lower U f) (ustr ''.pdf'') \<longrightarrow>
                    (\<exists>b. path_exists env f = Inr b))"

text \<open>The paragraph held in \<open>current_paragraph\<close>, if any, is a paragraph of the document.\<close>

definition live_reference :: "asm_state \<Rightarrow> bool" where
  "live_reference st =
     (case current_paragraph st of
        None \<Rightarrow> True
      | Some p \<Rightarrow> p < length (doc st) \<and> (\<exists>t. doc st ! p = Paragraph t))"

subsection \<open>Concrete inputs\<close>

definition page_with :: "pystr \<Rightarrow> raw_table list \<Rightarrow> page_content" where
  "page_with s ts = \<lparr>page_number = 1, page_text = s, page_tables = ts\<rparr>"

text \<open>A table of two cells, both filled, whose first row is empty.\<close>

definition table_empty_first_row :: raw_table where
  "table_empty_first_row = [[], [Some (ustr ''a'')]]"

text \<open>A table with rows of 2, 3 and 1 cells, one of them absent.\<close>

definition ragged_table :: raw_table where
  "ragged_table =
     [[Some (ustr ''a''), Some (ustr '' b '')],
      [Some (ustr ''c''), None, Some (ustr ''e'')],
      [Some (ustr ''f'')]]"

text \<open>
  A file system with four files, of which \<open>b.pdf\<close> has one page without text, and a
  directory \<open>locked\<close> that may not be searched, so that the existence check of a path
  below it raises; saving always succeeds.
\<close>

definition demo_env :: environment where
  "demo_env =
     \<lparr>path_exists =
        (\<lambda>p. if p = ustr ''locked/x.pdf'' then Inl OSError
              else Inr (p \<in> set [ustr ''a.pdf'', ustr ''b.pdf'', ustr ''c.pdf'',
                                ustr ''notes.txt''])),
      plumber_pages = (\<lambda>p. if p = ustr ''b.pdf'' then Some [(None, [])]
                            else Some [(Some (ustr ''Hello''), [])]),
      path_stem = (\<lambda>p. take (length p - 4) p),
      output_path = (\<lambda>n. ustr ''out/'' @ n),
      doc_save = (\<lambda>p d. True)\<rparr>"

section \<open>Basic facts\<close>

lemma ascii_py_ascii: "ascii_chars py_ascii"
  by (simp add: ascii_chars_def py_ascii_def bullet_glyph_def)

lemma ascii_upper: "ascii_chars U \<Longrightarrow> c < 128 \<Longrightarrow> ch_isupper U c = (65 \<le> c \<and> c \<le> 90)"
  by (simp add: ascii_chars_def)

lemma ascii_lower: "ascii_chars U \<Longrightarrow> c < 128 \<Longrightarrow> ch_islower U c = (97 \<le> c \<and> c \<le> 122)"
  by (simp add: ascii_chars_def)

lemma ascii_title: "ascii_chars U \<Longrightarrow> c < 128 \<Longrightarrow> \<not> ch_istitle U c"
  by (simp add: ascii_chars_def)

lemma ascii_space:
  "ascii_chars U \<Longrightarrow> c < 128 \<Longrightarrow>
     ch_isspace U c = ((9 \<le> c \<and> c \<le> 13) \<or> (28 \<le> c \<and> c \<le> 32))"
  by (simp add: ascii_chars_def)

lemma ascii_digit: "ascii_chars U \<Longrightarrow> c < 128 \<Longrightarrow> ch_isdigit U c = (48 \<le> c \<and> c \<le> 57)"
  by (simp add: ascii_chars_def)

lemma ascii_bullet: "ascii_chars U \<Longrightarrow> \<not> ch_isupper U bullet_glyph"
  by (simp add: ascii_chars_def)

lemmas ascii_simps = ascii_upper ascii_lower ascii_title ascii_space ascii_digit ascii_bullet

lemma str_strip_Nil: "str_strip U [] = []"
  by (simp add: str_strip_def)

lemma endswith_single: "endswith s [c] = (s \<noteq> [] \<and> last s = c)"
proof (cases s rule: rev_cases)
  case Nil
  then show ?thesis by (simp add: endswith_def)
next
  case (snoc ys y)
  then show ?thesis by (auto simp: endswith_def)
qed

lemma digit_dot_prefixes_eq:
  "digit_dot_prefixes =
     [[48, 46], [49, 46], [50, 46], [51, 46], [52, 46],
      [53, 46], [54, 46], [55, 46], [56, 46], [57, 46]]"
  by code_simp

lemma is_bullet_point_Cons:
  "is_bullet_point (c # cs) =
     (c = bullet_glyph \<or> c = 45 \<or> c = 42 \<or> c = circle_glyph \<or>
      (48 \<le> c \<and> c \<le> 57 \<and> (\<exists>r. cs = 46 # r)))"
proof -
  have "(48 \<le> c \<and> c \<le> 57) = (c \<in> {48, 49, 50, 51, 52, 53, 54, 55, 56, 57})"
    by (simp, arith)
  then show ?thesis
    by (cases cs) (auto simp: is_bullet_point_def bullet_markers_def digit_dot_prefixes_eq
        startswith_def ustr_def)
qed

subsection \<open>No test raises\<close>

lemma first_isupper_Cons: "first_isupper U (c # cs) = Inr (ch_isupper U c)"
  by (simp add: first_isupper_def getitem0_def str_isupper_def)

lemma is_main_title_total: "\<exists>b. is_main_title U line = Inr b"
  by (cases line) (auto simp: is_main_title_def and_e_def first_isupper_Cons)

lemma is_subtitle_total: "\<exists>b. is_subtitle U line = Inr b"
  by (cases line) (auto simp: is_subtitle_def and_e_def first_isupper_Cons)

lemma closes_paragraph_total: "\<exists>b. closes_paragraph U n = Inr b"
proof (cases n)
  case Nil
  then show ?thesis by (auto simp: closes_paragraph_def)
next
  case (Cons c cs)
  obtain mt where mt: "is_main_title U n = Inr mt" using is_main_title_total by blast
  obtain sub where sub: "is_subtitle U n = Inr sub" using is_subtitle_total by blast
  show ?thesis using Cons mt sub
    by (auto simp: closes_paragraph_def or_e_def first_isupper_Cons)
qed

lemma process_line_total: "\<exists>st'. process_line U raw rest st = Inr st'"
proof -
  obtain mt where mt: "is_main_title U (str_strip U raw) = Inr mt"
    using is_main_title_total by blast
  obtain sub where sub: "is_subtitle U (str_strip U raw) = Inr sub"
    using is_subtitle_total by blast
  obtain c where c: "closes_paragraph U (next_line_of U rest) = Inr c"
    using closes_paragraph_total by blast
  show ?thesis
    by (simp add: process_line_def Let_def mt sub c split: prod.split)
qed

lemma process_lines_total: "\<exists>st'. process_lines U ls st = Inr st'"
proof (induction ls arbitrary: st)
  case Nil
  then show ?case by simp
next
  case (Cons l ls)
  obtain st1 where "process_line U l ls st = Inr st1" using process_line_total by blast
  then show ?case using Cons [of st1] by simp
qed

subsection \<open>Counting cells\<close>

lemma count_cells_inner:
  "fold (\<lambda>c (cwc, total). (if P c then cwc + 1 else cwc, Suc total)) row (a, b)
     = (a + length (filter P row), b + length row)"
  by (induction row arbitrary: a b) simp_all

lemma count_cells_outer:
  "fold (fold (\<lambda>c (cwc, total). (if P c then cwc + 1 else cwc, Suc total))) t (a, b)
     = (a + length (filter P (concat t)), b + length (concat t))"
  by (induction t arbitrary: a b) (simp_all add: count_cells_inner)

lemma count_cells_eq:
  "count_cells U t = (length (filter (cell_has_content U) (concat t)), length (concat t))"
  using count_cells_outer [of "cell_has_content U" t 0 0] by (simp add: count_cells_def)

lemma cell_has_content_spec: "cell_has_content U = spec_filled U"
  by (auto simp: fun_eq_iff cell_has_content_def spec_filled_def str_strip_Nil
      split: option.splits)

lemma has_meaningful_content_eq:
  "has_meaningful_content U t =
     Inr (0 < length (concat t) \<and>
          literal_0_3 \<le> float_div (length (filter (spec_filled U) (concat t)))
                                    (length (concat t)))"
  by (cases "t = []")
     (auto simp: has_meaningful_content_def count_cells_eq and_e_def truediv_def
        cell_has_content_spec)

subsection \<open>Rounded quotients and the threshold\<close>

lemma rne_of_int [simp]: "rne (of_int n) = n"
  by (simp add: rne_def)

lemma rne_lower: "\<lfloor>x\<rfloor> \<le> rne x"
  by (simp add: rne_def Let_def)

lemma rne_upper: "rne x \<le> \<lfloor>x\<rfloor> + 1"
  by (simp add: rne_def Let_def)

lemma rne_mono: "x \<le> y \<Longrightarrow> rne x \<le> rne y"
proof -
  assume xy: "x \<le> y"
  have fl: "\<lfloor>x\<rfloor> \<le> \<lfloor>y\<rfloor>" using xy by (rule floor_mono)
  show ?thesis
  proof (cases "\<lfloor>x\<rfloor> = \<lfloor>y\<rfloor>")
    case True
    then have "x - of_int \<lfloor>x\<rfloor> \<le> y - of_int \<lfloor>y\<rfloor>" using xy by simp
    then show ?thesis using True by (auto simp: rne_def Let_def)
  next
    case False
    then have "\<lfloor>x\<rfloor> + 1 \<le> \<lfloor>y\<rfloor>" using fl by simp
    then show ?thesis using rne_upper [of x] rne_lower [of y] by linarith
  qed
qed

lemma exponent_bounds:
  assumes "0 < a" "0 < b"
  shows "(2::rat) powi quotient_exponent a b \<le> of_nat a / of_nat b"
    and "of_nat a / of_nat b < (2::rat) powi (quotient_exponent a b + 1)"
proof -
  let ?la = "floorlog 2 a" and ?lb = "floorlog 2 b"
  let ?d = "int ?la - int ?lb"
  let ?q = "(of_nat a / of_nat b :: rat)"
  have a: "2 ^ (?la - 1) \<le> a" "a < 2 ^ ?la" using floorlog_bounds [of a 2] assms by simp_all
  have b: "2 ^ (?lb - 1) \<le> b" "b < 2 ^ ?lb" using floorlog_bounds [of b 2] assms by simp_all
  have la: "0 < ?la" using assms by (simp add: floorlog_def)
  have lb: "0 < ?lb" using assms by (simp add: floorlog_def)
  have "(of_nat (2 ^ (?la - 1)) :: rat) \<le> of_nat a" using a(1) by (simp only: of_nat_le_iff)
  then have ra1: "(2::rat) ^ (?la - 1) \<le> of_nat a" by simp
  have "(of_nat a :: rat) < of_nat (2 ^ ?la)" using a(2) by (simp only: of_nat_less_iff)
  then have ra2: "(of_nat a :: rat) < 2 ^ ?la" by simp
  have "(of_nat (2 ^ (?lb - 1)) :: rat) \<le> of_nat b" using b(1) by (simp only: of_nat_le_iff)
  then have rb1: "(2::rat) ^ (?lb - 1) \<le> of_nat b" by simp
  have "(of_nat b :: rat) < of_nat (2 ^ ?lb)" using b(2) by (simp only: of_nat_less_iff)
  then have rb2: "(of_nat b :: rat) < 2 ^ ?lb" by simp
  have bpos: "(0::rat) < of_nat b" using assms by simp
  have apos: "(0::rat) < of_nat a" using assms by simp
  have up: "?q < 2 powi (?d + 1)"
  proof -
    have "?q < 2 ^ ?la / 2 ^ (?lb - 1)"
      using ra2 rb1 apos by (intro frac_less) simp_all
    also have "\<dots> = 2 powi (int ?la - int (?lb - 1))"
      by (simp add: power_int_diff)
    also have "int ?la - int (?lb - 1) = ?d + 1" using lb by simp
    finally show ?thesis .
  qed
  have lo: "2 powi (?d - 1) \<le> ?q"
  proof -
    have eq: "?d - 1 = int (?la - 1) - int ?lb" using la by simp
    have "(2::rat) powi (?d - 1) = 2 powi (int (?la - 1) - int ?lb)"
      by (simp only: eq)
    also have "\<dots> = (2::rat) ^ (?la - 1) / 2 ^ ?lb"
      by (simp add: power_int_diff)
    also have "\<dots> \<le> ?q"
      using ra1 rb2 bpos by (intro frac_le) simp_all
    finally show ?thesis .
  qed
  show "(2::rat) powi quotient_exponent a b \<le> ?q"
    using lo by (simp add: quotient_exponent_def Let_def)
  show "?q < (2::rat) powi (quotient_exponent a b + 1)"
    using up by (simp add: quotient_exponent_def Let_def not_le)
qed


lemma float_03: "float_div 3 10 = 5404319552844595 / 2 ^ 54"
  by code_simp

lemma float_div_range:
  assumes "0 < a" "0 < b"
  shows "(2::rat) powi quotient_exponent a b \<le> float_div a b"
    and "float_div a b \<le> (2::rat) powi (quotient_exponent a b + 1)"
proof -
  let ?e = "quotient_exponent a b"
  let ?q = "(of_nat a / of_nat b :: rat)"
  let ?x = "?q * 2 powi (52 - ?e)"
  have s: "(0::rat) < 2 powi (52 - ?e)" by simp
  have "2 powi ?e * 2 powi (52 - ?e) \<le> ?x"
    using exponent_bounds(1) [OF assms] s by (intro mult_right_mono) simp_all
  then have lo: "of_int (2 ^ 52) \<le> ?x" by (simp flip: power_int_add)
  have "?x \<le> 2 powi (?e + 1) * 2 powi (52 - ?e)"
    using exponent_bounds(2) [OF assms] s by (intro mult_right_mono) simp_all
  then have hi: "?x \<le> of_int (2 ^ 53)" by (simp flip: power_int_add)
  have m1: "2 ^ 52 \<le> rne ?x" using rne_mono [OF lo] by (simp only: rne_of_int)
  have m2: "rne ?x \<le> 2 ^ 53" using rne_mono [OF hi] by (simp only: rne_of_int)
  have t: "(0::rat) < 2 powi (?e - 52)" by simp
  have f: "float_div a b = of_int (rne ?x) * 2 powi (?e - 52)"
    using assms by (simp add: float_div_def Let_def)
  have "(2::rat) powi ?e = of_int (2 ^ 52) * 2 powi (?e - 52)"
    by (simp add: power_int_diff)
  also have "\<dots> \<le> of_int (rne ?x) * 2 powi (?e - 52)"
    using m1 t by (intro mult_right_mono) simp_all
  finally show "(2::rat) powi ?e \<le> float_div a b" by (simp only: f)
  have "of_int (rne ?x) * (2::rat) powi (?e - 52) \<le> of_int (2 ^ 53) * 2 powi (?e - 52)"
    using m2 t by (intro mult_right_mono) simp_all
  also have "\<dots> = 2 powi (?e + 1)"
    by (simp add: power_int_diff power_int_add)
  finally show "float_div a b \<le> (2::rat) powi (?e + 1)" by (simp only: f)
qed

lemma float_div_quarter_to_half:
  assumes "0 < a" "0 < b" "quotient_exponent a b = - 2"
  shows "float_div a b = of_int (rne (of_nat a / of_nat b * 2 ^ 54)) / 2 ^ 54"
  using assms by (simp add: float_div_def Let_def power_int_minus_divide)


lemma float_div_ge_03:
  assumes "0 < b" and "3 * b \<le> 10 * a"
  shows "float_div 3 10 \<le> float_div a b"
proof -
  have a: "0 < a" using assms by (cases a) simp_all
  let ?e = "quotient_exponent a b"
  let ?q = "(of_nat a / of_nat b :: rat)"
  note eb = exponent_bounds [OF a assms(1)]
  note fr = float_div_range [OF a assms(1)]
  have bpos: "(0::rat) < of_nat b" using assms by simp
  have "(of_nat (3 * b) :: rat) \<le> of_nat (10 * a)" using assms(2) by (simp only: of_nat_le_iff)
  then have q: "3 / 10 \<le> ?q" using bpos by (simp add: field_simps)
  have e: "- 2 \<le> ?e"
  proof (rule ccontr)
    assume "\<not> - 2 \<le> ?e"
    then have "?e + 1 \<le> - 2" by simp
    then have "(2::rat) powi (?e + 1) \<le> 2 powi (- 2)" by (intro power_int_increasing) simp_all
    then have "(2::rat) powi (?e + 1) \<le> 1 / 4" by (simp add: power_int_minus_divide)
    with eb(2) q show False by linarith
  qed
  show ?thesis
  proof (cases "?e = - 2")
    case True
    have "(5404319552844595::rat) \<le> 3 / 10 * 2 ^ 54" by simp
    also have "\<dots> \<le> ?q * 2 ^ 54" using q by (intro mult_right_mono) simp_all
    finally have "of_int 5404319552844595 \<le> ?q * 2 ^ 54" by simp
    from rne_mono [OF this] have "5404319552844595 \<le> rne (?q * 2 ^ 54)"
      by (simp only: rne_of_int)
    then have "(5404319552844595::rat) \<le> of_int (rne (?q * 2 ^ 54))"
      by (metis of_int_le_iff of_int_numeral)
    then show ?thesis
      unfolding float_03 float_div_quarter_to_half [OF a assms(1) True]
      by (simp add: divide_right_mono)
  next
    case False
    with e have "- 1 \<le> ?e" by simp
    then have "(2::rat) powi (- 1) \<le> 2 powi ?e" by (intro power_int_increasing) simp_all
    then have "(1::rat) / 2 \<le> 2 powi ?e" by (simp add: power_int_minus_divide)
    with fr(1) have "1 / 2 \<le> float_div a b" by linarith
    then show ?thesis by (simp add: float_03)
  qed
qed

lemma float_div_lt_03:
  assumes "0 < b" and "b < 2 ^ 50" and "\<not> 3 * b \<le> 10 * a"
  shows "float_div a b < float_div 3 10"
proof (cases "a = 0")
  case True
  then show ?thesis by (simp add: float_03) (simp add: float_div_def)
next
  case False
  then have a: "0 < a" by simp
  let ?e = "quotient_exponent a b"
  let ?q = "(of_nat a / of_nat b :: rat)"
  note eb = exponent_bounds [OF a assms(1)]
  note fr = float_div_range [OF a assms(1)]
  have bpos: "(0::rat) < of_nat b" using assms by simp
  have lt: "10 * a + 1 \<le> 3 * b" using assms(3) by simp
  have "(of_nat (10 * a) :: rat) < of_nat (3 * b)"
    using assms(3) by (simp only: of_nat_less_iff not_le)
  then have q: "?q < 3 / 10" using bpos by (simp add: field_simps)
  have e: "?e \<le> - 2"
  proof (rule ccontr)
    assume "\<not> ?e \<le> - 2"
    then have "- 1 \<le> ?e" by simp
    then have "(2::rat) powi (- 1) \<le> 2 powi ?e" by (intro power_int_increasing) simp_all
    then have "(1::rat) / 2 \<le> 2 powi ?e" by (simp add: power_int_minus_divide)
    with eb(1) q show False by linarith
  qed
  show ?thesis
  proof (cases "?e = - 2")
    case True
    have "a * 18014398509481984 \<le> 5404319552844594 * b" using lt assms(2) by simp
    then have "(of_nat (a * 18014398509481984) :: rat) \<le> of_nat (5404319552844594 * b)"
      by (simp only: of_nat_le_iff)
    then have "?q * 2 ^ 54 \<le> of_int 5404319552844594" using bpos by (simp add: field_simps)
    from rne_mono [OF this] have "rne (?q * 2 ^ 54) \<le> 5404319552844594"
      by (simp only: rne_of_int)
    then have "rne (?q * 2 ^ 54) < 5404319552844595" by simp
    then have "(of_int (rne (?q * 2 ^ 54)) :: rat) < 5404319552844595"
      by (metis of_int_less_iff of_int_numeral)
    then show ?thesis
      unfolding float_03 float_div_quarter_to_half [OF a assms(1) True]
      by (simp add: divide_strict_right_mono)
  next
    case False
    with e have "?e + 1 \<le> - 2" by simp
    then have "(2::rat) powi (?e + 1) \<le> 2 powi (- 2)" by (intro power_int_increasing) simp_all
    then have "(2::rat) powi (?e + 1) \<le> 1 / 4" by (simp add: power_int_minus_divide)
    with fr(2) have "float_div a b \<le> 1 / 4" by linarith
    then show ?thesis by (simp add: float_03)
  qed
qed

lemma ratio_ge_iff:
  assumes "0 < b"
  shows "((3::rat) / 10 \<le> of_nat a / of_nat b) = (3 * b \<le> 10 * a)"
proof -
  have bpos: "(0::rat) < of_nat b" using assms by simp
  have "((3::rat) / 10 \<le> of_nat a / of_nat b) = ((of_nat (3 * b) :: rat) \<le> of_nat (10 * a))"
    using bpos by (simp add: field_simps)
  then show ?thesis by (simp only: of_nat_le_iff)
qed

lemma has_meaningful_content_small:
  assumes "length (concat t) < 2 ^ 50"
  shows "has_meaningful_content U t =
           Inr (0 < length (concat t) \<and>
                3 * length (concat t) \<le> 10 * length (filter (spec_filled U) (concat t)))"
proof (cases "0 < length (concat t)")
  case True
  let ?a = "length (filter (spec_filled U) (concat t))" and ?b = "length (concat t)"
  show ?thesis
  proof (cases "3 * ?b \<le> 10 * ?a")
    case ge: True
    have "float_div 3 10 \<le> float_div ?a ?b" using True ge by (rule float_div_ge_03)
    then show ?thesis using True ge by (simp add: has_meaningful_content_eq literal_0_3_def)
  next
    case lt: False
    have "float_div ?a ?b < float_div 3 10" using True assms lt by (rule float_div_lt_03)
    then have "\<not> float_div 3 10 \<le> float_div ?a ?b" by simp
    then show ?thesis using True lt by (simp add: has_meaningful_content_eq literal_0_3_def)
  qed
next
  case False
  then show ?thesis by (simp add: has_meaningful_content_eq)
qed

section \<open>Line classification\<close>

text \<open>
  C7, as amended. A line shorter than 120 characters whose first character is uppercase
  and which ends with a question mark, and which is not empty, not a page number and not
  a main title, is a subtitle.
\<close>

theorem question_line_is_subtitle:
  assumes "length line < 120" and "first_isupper U line = Inr True"
    and "endswith line (ustr ''?'')"
    and "line \<noteq> []" and "\<not> (str_isdigit U line \<and> length line \<le> 3)"
    and "is_main_title U line \<noteq> Inr True"
  shows "classify U line = Inr Subtitle"
proof -
  obtain mt where mt: "is_main_title U line = Inr mt" using is_main_title_total by blast
  with assms(6) have "\<not> mt" by simp
  moreover have "is_subtitle U line = Inr True"
    using assms(1-4) by (simp add: is_subtitle_def and_e_def)
  ultimately show ?thesis using assms(4,5) mt by (simp add: classify_def)
qed

theorem question_line_is_subtitle_witness:
  "length (ustr ''Ready now?'') < 120 \<and>
   first_isupper py_ascii (ustr ''Ready now?'') = Inr True \<and>
   endswith (ustr ''Ready now?'') (ustr ''?'') \<and> ustr ''Ready now?'' \<noteq> [] \<and>
   \<not> (str_isdigit py_ascii (ustr ''Ready now?'') \<and> length (ustr ''Ready now?'') \<le> 3) \<and>
   is_main_title py_ascii (ustr ''Ready now?'') \<noteq> Inr True \<and>
   classify py_ascii (ustr ''Ready now?'') = Inr Subtitle"
proof -
  have a: "length (ustr ''Ready now?'') < 120" by (simp add: ustr_def)
  have b: "first_isupper py_ascii (ustr ''Ready now?'') = Inr True" by code_simp
  have c: "endswith (ustr ''Ready now?'') (ustr ''?'')" by code_simp
  have d: "ustr ''Ready now?'' \<noteq> []" by (simp add: ustr_def)
  have e: "\<not> (str_isdigit py_ascii (ustr ''Ready now?'') \<and> length (ustr ''Ready now?'') \<le> 3)"
    by (simp add: ustr_def)
  have f: "is_main_title py_ascii (ustr ''Ready now?'') \<noteq> Inr True" by code_simp
  show ?thesis using question_line_is_subtitle [OF a b c d e f] a b c d e f by simp
qed

text \<open>
  C7, as stated, fails at length 120: the line \<open>line_120\<close> has 120 characters, starts
  with an uppercase letter, ends with a question mark and passes no earlier test, and the
  subtitle test rejects it; it is plain text.
\<close>

theorem subtitle_length_120_counterexample:
  "length line_120 = 120 \<and> first_isupper py_ascii line_120 = Inr True \<and>
   endswith line_120 (ustr ''?'') \<and> is_main_title py_ascii line_120 = Inr False \<and>
   \<not> (str_isdigit py_ascii line_120 \<and> length line_120 \<le> 3) \<and>
   is_subtitle py_ascii line_120 = Inr False \<and>
   classify py_ascii line_120 = Inr PlainText"
  by (simp add: line_120_def ustr_def first_isupper_Cons py_ascii_def endswith_single
      is_main_title_def is_subtitle_def and_e_def classify_def is_bullet_point_Cons
      bullet_glyph_def circle_glyph_def)

section \<open>The table quality filter\<close>

text \<open>
  C2. \<open>has_meaningful_content\<close> returns true whenever the table has at least one cell
  and the filled cells, divided by all cells, are at least 3/10; for a table of fewer
  than \<open>2 ^ 50\<close> cells it returns true exactly then. It returns false for the empty table
  and for a table with one filled cell of six, and true for a table with four filled
  cells of six.
\<close>

theorem table_filter_threshold:
  "(0 < length (concat t) \<and>
    (3::rat) / 10 \<le> of_nat (length (filter (spec_filled U) (concat t)))
                      / of_nat (length (concat t))
      \<longrightarrow> has_meaningful_content U t = Inr True) \<and>
   (length (concat t) < 2 ^ 50 \<longrightarrow>
      has_meaningful_content U t =
        Inr (0 < length (concat t) \<and>
             (3::rat) / 10 \<le> of_nat (length (filter (spec_filled U) (concat t)))
                               / of_nat (length (concat t)))) \<and>
   has_meaningful_content U [] = Inr False \<and>
   (ascii_chars U \<longrightarrow>
      has_meaningful_content U
        [[Some (ustr ''a''), Some [], Some []], [Some [], Some [], Some []]] = Inr False \<and>
      has_meaningful_content U
        [[Some (ustr ''a''), Some (ustr ''b''), Some []],
         [Some (ustr ''c''), Some [], Some (ustr ''d'')]] = Inr True)"
proof (intro conjI impI)
  assume h: "0 < length (concat t) \<and>
    (3::rat) / 10 \<le> of_nat (length (filter (spec_filled U) (concat t)))
                      / of_nat (length (concat t))"
  then have pos: "0 < length (concat t)"
    and "(3::rat) / 10 \<le> of_nat (length (filter (spec_filled U) (concat t)))
                      / of_nat (length (concat t))"
    by blast+
  then have "3 * length (concat t) \<le> 10 * length (filter (spec_filled U) (concat t))"
    by (simp only: ratio_ge_iff [OF pos])
  with pos have "float_div 3 10 \<le> float_div (length (filter (spec_filled U) (concat t)))
                                    (length (concat t))"
    by (rule float_div_ge_03)
  with pos show "has_meaningful_content U t = Inr True"
    by (simp add: has_meaningful_content_eq literal_0_3_def)
next
  assume small: "length (concat t) < 2 ^ 50"
  show "has_meaningful_content U t =
        Inr (0 < length (concat t) \<and>
             (3::rat) / 10 \<le> of_nat (length (filter (spec_filled U) (concat t)))
                               / of_nat (length (concat t)))"
  proof (cases "0 < length (concat t)")
    case True
    show ?thesis
      unfolding has_meaningful_content_small [OF small] ratio_ge_iff [OF True] ..
  next
    case False
    then show ?thesis by (simp add: has_meaningful_content_eq)
  qed
next
  show "has_meaningful_content U [] = Inr False"
    by (simp add: has_meaningful_content_def)
next
  assume "ascii_chars U"
  then show "has_meaningful_content U
        [[Some (ustr ''a''), Some [], Some []], [Some [], Some [], Some []]] = Inr False"
    by (simp add: has_meaningful_content_small spec_filled_def str_strip_def ustr_def
        ascii_simps)
next
  assume "ascii_chars U"
  then show "has_meaningful_content U
        [[Some (ustr ''a''), Some (ustr ''b''), Some []],
         [Some (ustr ''c''), Some [], Some (ustr ''d'')]] = Inr True"
    by (simp add: has_meaningful_content_small spec_filled_def str_strip_def ustr_def
        ascii_simps)
qed

theorem table_filter_threshold_witness:
  "ascii_chars py_ascii \<and>
   length (concat [[Some (ustr ''a''), Some (ustr ''b''), Some []],
                   [Some (ustr ''c''), Some [], Some (ustr ''d'')]]) < 2 ^ 50 \<and>
   has_meaningful_content py_ascii
        [[Some (ustr ''a''), Some [], Some []], [Some [], Some [], Some []]] = Inr False \<and>
   has_meaningful_content py_ascii
        [[Some (ustr ''a''), Some (ustr ''b''), Some []],
         [Some (ustr ''c''), Some [], Some (ustr ''d'')]] = Inr True"
proof -
  let ?t = "[[Some (ustr ''a''), Some (ustr ''b''), Some []],
             [Some (ustr ''c''), Some [], Some (ustr ''d'')]]"
  have l: "length (concat ?t) < 2 ^ 50" by simp
  note ex = table_filter_threshold [of ?t py_ascii, THEN conjunct2, THEN conjunct2,
      THEN conjunct2, THEN mp, OF ascii_py_ascii]
  show ?thesis using ex l ascii_py_ascii by blast
qed

section \<open>Paragraph assembly\<close>

lemma closes_paragraph_nonempty:
  "closes_paragraph U (c # cs) =
     Inr (is_main_title U (c # cs) = Inr True \<or> is_subtitle U (c # cs) = Inr True \<or>
          is_bullet_point (c # cs) \<or> ch_isupper U c)"
proof -
  obtain mt where mt: "is_main_title U (c # cs) = Inr mt" using is_main_title_total by blast
  obtain sub where sub: "is_subtitle U (c # cs) = Inr sub" using is_subtitle_total by blast
  show ?thesis
    by (simp add: closes_paragraph_def or_e_def mt sub first_isupper_Cons)
qed

lemma closes_paragraph_Nil: "closes_paragraph U [] = Inr False"
  by (simp add: closes_paragraph_def)

lemma str_strip_id:
  assumes "s \<noteq> []" "\<not> ch_isspace U (hd s)" "\<not> ch_isspace U (last s)"
  shows "str_strip U s = s"
proof -
  have 1: "dropWhile (ch_isspace U) s = s"
    using assms(2) by (simp add: dropWhile_eq_self_iff)
  have 2: "dropWhile (ch_isspace U) (rev s) = rev s"
    using assms(1,3) by (simp add: dropWhile_eq_self_iff hd_rev)
  show ?thesis by (simp add: str_strip_def 1 2)
qed

lemma process_text_content_total: "\<exists>d'. process_text_content U d ls = Inr d'"
proof -
  obtain st where "process_lines U ls \<lparr>doc = d, current_paragraph = None\<rparr> = Inr st"
    using process_lines_total by blast
  then show ?thesis by (simp add: process_text_content_def)
qed

lemma process_line_live:
  assumes "process_line U raw rest st = Inr st'" and "live_reference st"
  shows "live_reference st'"
proof -
  obtain mt where mt: "is_main_title U (str_strip U raw) = Inr mt"
    using is_main_title_total by blast
  obtain sub where sub: "is_subtitle U (str_strip U raw) = Inr sub"
    using is_subtitle_total by blast
  obtain c where c: "closes_paragraph U (next_line_of U rest) = Inr c"
    using closes_paragraph_total by blast
  show ?thesis
    using assms
    by (auto simp: process_line_def Let_def mt sub c live_reference_def add_run_def nth_append
        split: if_splits option.splits)
qed

lemma process_lines_live:
  "process_lines U ls st = Inr st' \<Longrightarrow> live_reference st \<Longrightarrow> live_reference st'"
proof (induction ls arbitrary: st)
  case Nil
  then show ?case by simp
next
  case (Cons l ls)
  obtain st1 where s1: "process_line U l ls st = Inr st1" using process_line_total by blast
  have "live_reference st1" using process_line_live [OF s1 Cons.prems(2)] .
  moreover have "process_lines U ls st1 = Inr st'" using Cons.prems(1) s1 by simp
  ultimately show ?case by (rule Cons.IH [rotated])
qed

text \<open>What the loop body does with a line, by the branch the line takes.\<close>

lemma process_line_dispatch:
  assumes "classify U (str_strip U raw) = Inr k"
  shows "k = Blank \<Longrightarrow> process_line U raw rest st = Inr (st\<lparr>current_paragraph := None\<rparr>)"
    and "k = PageNumber \<Longrightarrow> process_line U raw rest st = Inr st"
    and "k = MainTitle \<Longrightarrow> process_line U raw rest st =
           Inr \<lparr>doc = doc st @ [Heading 1 (str_strip U raw)], current_paragraph = None\<rparr>"
    and "k = Subtitle \<Longrightarrow> process_line U raw rest st =
           Inr \<lparr>doc = doc st @ [Heading 2 (str_strip U raw)], current_paragraph = None\<rparr>"
    and "k = BulletItem \<Longrightarrow> process_line U raw rest st =
           Inr \<lparr>doc = doc st @ [ListItem (clean_bullet_point U (str_strip U raw))],
                current_paragraph = None\<rparr>"
proof -
  obtain mt where mt: "is_main_title U (str_strip U raw) = Inr mt"
    using is_main_title_total by blast
  obtain sub where sub: "is_subtitle U (str_strip U raw) = Inr sub"
    using is_subtitle_total by blast
  note c = assms [unfolded classify_def mt sub, simplified]
  show "k = Blank \<Longrightarrow> process_line U raw rest st = Inr (st\<lparr>current_paragraph := None\<rparr>)"
    using c by (auto simp: process_line_def Let_def mt sub split: if_splits)
  show "k = PageNumber \<Longrightarrow> process_line U raw rest st = Inr st"
    using c by (auto simp: process_line_def Let_def mt sub split: if_splits)
  show "k = MainTitle \<Longrightarrow> process_line U raw rest st =
           Inr \<lparr>doc = doc st @ [Heading 1 (str_strip U raw)], current_paragraph = None\<rparr>"
    using c by (auto simp: process_line_def Let_def mt sub split: if_splits)
  show "k = Subtitle \<Longrightarrow> process_line U raw rest st =
           Inr \<lparr>doc = doc st @ [Heading 2 (str_strip U raw)], current_paragraph = None\<rparr>"
    using c by (auto simp: process_line_def Let_def mt sub split: if_splits)
  show "k = BulletItem \<Longrightarrow> process_line U raw rest st =
           Inr \<lparr>doc = doc st @ [ListItem (clean_bullet_point U (str_strip U raw))],
                current_paragraph = None\<rparr>"
    using c by (auto simp: process_line_def Let_def mt sub split: if_splits)
qed

text \<open>
  C1. The loop body deals with a line by the first test of the priority list that its
  stripped form passes: empty, page number, main title, subtitle, bullet, and plain text
  when none applies; the category of a stripped line is the one of that first test. With
  a character table that agrees with Python on ASCII, the line \<open>OVERVIEW\<close> is a main
  title and becomes a heading of level 1, and the line \<open>\<bullet> Introduction\<close> is a bullet
  item and, the glyph not being whitespace, becomes the list item \<open>Introduction\<close>.
\<close>

theorem classify_priority_order:
  "process_line U raw rest st =
     category_action U (first_match (priority_tests U) PlainText (str_strip U raw))
       (str_strip U raw) rest st \<and>
   classify U line = Inr (first_match (priority_tests U) PlainText line) \<and>
   (ascii_chars U \<longrightarrow>
      classify U (ustr ''OVERVIEW'') = Inr MainTitle \<and>
      classify U (bullet_glyph # ustr '' Introduction'') = Inr BulletItem \<and>
      process_line U (ustr ''OVERVIEW'') rest st =
        Inr \<lparr>doc = doc st @ [Heading 1 (ustr ''OVERVIEW'')], current_paragraph = None\<rparr>) \<and>
   (ascii_chars U \<and> \<not> ch_isspace U bullet_glyph \<longrightarrow>
      process_line U (bullet_glyph # ustr '' Introduction'') rest st =
        Inr \<lparr>doc = doc st @ [ListItem (ustr ''Introduction'')], current_paragraph = None\<rparr>)"
proof (intro conjI impI)
  obtain mt where mt: "is_main_title U (str_strip U raw) = Inr mt"
    using is_main_title_total by blast
  obtain sub where sub: "is_subtitle U (str_strip U raw) = Inr sub"
    using is_subtitle_total by blast
  show "process_line U raw rest st =
     category_action U (first_match (priority_tests U) PlainText (str_strip U raw))
       (str_strip U raw) rest st"
    by (simp add: process_line_def category_action_def priority_tests_def
        plain_text_line_def Let_def mt sub)
next
  obtain mt where mt: "is_main_title U line = Inr mt" using is_main_title_total by blast
  obtain sub where sub: "is_subtitle U line = Inr sub" using is_subtitle_total by blast
  show "classify U line = Inr (first_match (priority_tests U) PlainText line)"
    by (simp add: classify_def priority_tests_def mt sub)
next
  assume "ascii_chars U"
  then show "classify U (ustr ''OVERVIEW'') = Inr MainTitle"
    by (simp add: classify_def is_main_title_def str_isupper_def ustr_def str_isdigit_def
        ascii_simps)
next
  assume "ascii_chars U"
  then show "classify U (bullet_glyph # ustr '' Introduction'') = Inr BulletItem"
    by (simp add: classify_def is_main_title_def is_subtitle_def str_isupper_def ustr_def
        str_isdigit_def ascii_simps and_e_def first_isupper_Cons is_bullet_point_def
        bullet_markers_def startswith_def)
next
  assume a: "ascii_chars U"
  have s: "str_strip U (ustr ''OVERVIEW'') = ustr ''OVERVIEW''"
    using a by (intro str_strip_id) (simp_all add: ustr_def ascii_simps)
  have c: "classify U (ustr ''OVERVIEW'') = Inr MainTitle"
    using a by (simp add: classify_def is_main_title_def str_isupper_def ustr_def
        str_isdigit_def ascii_simps)
  show "process_line U (ustr ''OVERVIEW'') rest st =
        Inr \<lparr>doc = doc st @ [Heading 1 (ustr ''OVERVIEW'')], current_paragraph = None\<rparr>"
    using process_line_dispatch(3) [of U "ustr ''OVERVIEW''" MainTitle rest st] c
    by (simp add: s)
next
  assume a: "ascii_chars U \<and> \<not> ch_isspace U bullet_glyph"
  let ?l = "bullet_glyph # ustr '' Introduction''"
  have s: "str_strip U ?l = ?l"
    using a by (intro str_strip_id) (simp_all add: ustr_def ascii_simps)
  have c: "classify U ?l = Inr BulletItem"
    using a by (simp add: classify_def is_main_title_def is_subtitle_def str_isupper_def
        ustr_def str_isdigit_def ascii_simps and_e_def first_isupper_Cons is_bullet_point_def
        bullet_markers_def startswith_def)
  have "str_strip U (ustr '' Introduction'') = ustr ''Introduction''"
    using a by (simp add: str_strip_def ustr_def ascii_simps)
  then have b: "clean_bullet_point U ?l = ustr ''Introduction''"
    by (simp add: clean_bullet_point_def bullet_markers_def startswith_def)
  show "process_line U ?l rest st =
        Inr \<lparr>doc = doc st @ [ListItem (ustr ''Introduction'')], current_paragraph = None\<rparr>"
    using process_line_dispatch(5) [of U ?l BulletItem rest st] c
    by (simp add: s b)
qed

theorem classify_priority_order_witness:
  "ascii_chars py_ascii \<and> \<not> ch_isspace py_ascii bullet_glyph \<and>
   classify py_ascii (ustr ''OVERVIEW'') = Inr MainTitle \<and>
   classify py_ascii (bullet_glyph # ustr '' Introduction'') = Inr BulletItem \<and>
   process_line py_ascii (ustr ''OVERVIEW'') [] \<lparr>doc = [], current_paragraph = None\<rparr> =
     Inr \<lparr>doc = [Heading 1 (ustr ''OVERVIEW'')], current_paragraph = None\<rparr> \<and>
   process_line py_ascii (bullet_glyph # ustr '' Introduction'') []
       \<lparr>doc = [], current_paragraph = None\<rparr> =
     Inr \<lparr>doc = [ListItem (ustr ''Introduction'')], current_paragraph = None\<rparr>"
proof -
  have g: "\<not> ch_isspace py_ascii bullet_glyph"
    by (simp add: py_ascii_def bullet_glyph_def)
  show ?thesis
    using classify_priority_order [of py_ascii "[]" "[]" "\<lparr>doc = [], current_paragraph = None\<rparr>" "[]"]
      ascii_py_ascii g
    by simp
qed

text \<open>
  C3. A plain-text line that ends a sentence and is followed by an empty line, or by no
  line, leaves the paragraph open: the condition that decides on closing is false
  whenever the next line is empty, for every character table. Evaluated on the one-line
  input \<open>Done.\<close>, with no next line and with an empty next line, the state after the
  line still holds the paragraph.
\<close>

theorem paragraph_left_open_at_end:
  "closes_paragraph U [] = Inr False \<and>
   classify py_ascii (ustr ''Done.'') = Inr PlainText \<and> ends_sentence (ustr ''Done.'') \<and>
   process_line py_ascii (ustr ''Done.'') [] \<lparr>doc = [], current_paragraph = None\<rparr>
     = Inr \<lparr>doc = [Paragraph (ustr ''Done.'')], current_paragraph = Some 0\<rparr> \<and>
   process_line py_ascii (ustr ''Done.'') [[]] \<lparr>doc = [], current_paragraph = None\<rparr>
     = Inr \<lparr>doc = [Paragraph (ustr ''Done.'')], current_paragraph = Some 0\<rparr>"
proof -
  have "closes_paragraph U [] = Inr False" by (simp add: closes_paragraph_def)
  moreover have "classify py_ascii (ustr ''Done.'') = Inr PlainText" by code_simp
  moreover have "ends_sentence (ustr ''Done.'')" by code_simp
  moreover have "process_line py_ascii (ustr ''Done.'') [] \<lparr>doc = [], current_paragraph = None\<rparr>
     = Inr \<lparr>doc = [Paragraph (ustr ''Done.'')], current_paragraph = Some 0\<rparr>" by code_simp
  moreover have "process_line py_ascii (ustr ''Done.'') [[]] \<lparr>doc = [], current_paragraph = None\<rparr>
     = Inr \<lparr>doc = [Paragraph (ustr ''Done.'')], current_paragraph = Some 0\<rparr>" by code_simp
  ultimately show ?thesis by simp
qed

lemma sentence_line_plain:
  assumes "ascii_chars U" and "l \<in> {ustr ''This is a sentence.'', ustr ''this continues.'', ustr ''Next starts here.''}"
  shows "str_strip U l = l" and "is_main_title U l = Inr False" and "is_subtitle U l = Inr False"
    and "\<not> is_bullet_point l" and "ends_sentence l" and "\<not> length l \<le> 3" and "l \<noteq> []"
proof -
  show "str_strip U l = l"
    using assms by (auto intro!: str_strip_id simp: ustr_def ascii_simps)
  show "is_main_title U l = Inr False"
    using assms by (auto simp: is_main_title_def ustr_def str_isupper_def ascii_simps and_e_def endswith_single)
  show "is_subtitle U l = Inr False"
    using assms by (auto simp: is_subtitle_def ustr_def ascii_simps and_e_def endswith_single first_isupper_Cons)
  show "\<not> is_bullet_point l"
    using assms by (auto simp: ustr_def is_bullet_point_Cons bullet_glyph_def circle_glyph_def)
  show "ends_sentence l"
    using assms by (auto simp: ustr_def ends_sentence_def endswith_single)
  show "\<not> length l \<le> 3" "l \<noteq> []"
    using assms by (auto simp: ustr_def)
qed

text \<open>
  C4. The lines \<open>This is a sentence.\<close> and \<open>this continues.\<close> give one paragraph, joined
  by a single space; the lines \<open>This is a sentence.\<close> and \<open>Next starts here.\<close> give two
  paragraphs. After a line that ends a sentence, a next line that is not empty closes the
  paragraph exactly when it is a main title, a subtitle or a bullet item, or when its
  first character is uppercase.
\<close>

theorem paragraph_merge_and_split:
  assumes "ascii_chars U"
  shows "process_text_content U [] [ustr ''This is a sentence.'', ustr ''this continues.'']
       = Inr [Paragraph (ustr ''This is a sentence. this continues.'')] \<and>
     process_text_content U [] [ustr ''This is a sentence.'', ustr ''Next starts here.'']
       = Inr [Paragraph (ustr ''This is a sentence.''), Paragraph (ustr ''Next starts here.'')] \<and>
     closes_paragraph U (c # cs) =
       Inr (is_main_title U (c # cs) = Inr True \<or> is_subtitle U (c # cs) = Inr True \<or>
            is_bullet_point (c # cs) \<or> ch_isupper U c)"
proof -
  note f1 = sentence_line_plain [OF assms, of "ustr ''This is a sentence.''", simplified]
  note f2 = sentence_line_plain [OF assms, of "ustr ''this continues.''", simplified]
  note f3 = sentence_line_plain [OF assms, of "ustr ''Next starts here.''", simplified]
  have c2: "closes_paragraph U (ustr ''this continues.'') = Inr False"
    using f2 assms by (simp add: ustr_def closes_paragraph_nonempty ascii_simps)
  have c3: "closes_paragraph U (ustr ''Next starts here.'') = Inr True"
    using assms by (simp add: ustr_def closes_paragraph_nonempty ascii_simps)
  have a: "process_text_content U [] [ustr ''This is a sentence.'', ustr ''this continues.'']
       = Inr [Paragraph (ustr ''This is a sentence. this continues.'')]"
    by (simp add: process_text_content_def process_line_def f1 f2 c2 closes_paragraph_Nil
        next_line_of_def add_run_def paragraph_text_def) (simp add: ustr_def)
  have b: "process_text_content U [] [ustr ''This is a sentence.'', ustr ''Next starts here.'']
       = Inr [Paragraph (ustr ''This is a sentence.''), Paragraph (ustr ''Next starts here.'')]"
    by (simp add: process_text_content_def process_line_def f1 f3 c3 closes_paragraph_Nil
        next_line_of_def add_run_def paragraph_text_def)
  show ?thesis using a b closes_paragraph_nonempty [of U c cs] by simp
qed

theorem paragraph_merge_and_split_witness:
  "ascii_chars py_ascii \<and>
   process_text_content py_ascii [] [ustr ''This is a sentence.'', ustr ''this continues.'']
       = Inr [Paragraph (ustr ''This is a sentence. this continues.'')] \<and>
   process_text_content py_ascii [] [ustr ''This is a sentence.'', ustr ''Next starts here.'']
       = Inr [Paragraph (ustr ''This is a sentence.''), Paragraph (ustr ''Next starts here.'')]"
  using paragraph_merge_and_split [OF ascii_py_ascii] ascii_py_ascii by simp

section \<open>Rendering tables\<close>

lemma fill_row_gen:
  assumes "i < length g" and "k + length row \<le> length (g ! i)"
  shows "fold (\<lambda>(j, cell_data) g.
             if j < length (g ! i) then g[i := (g ! i)[j := cell_data]] else g)
          (enumerate k row) g
         = g[i := take k (g ! i) @ row @ drop (k + length row) (g ! i)]"
  using assms
proof (induction row arbitrary: k g)
  case Nil
  then show ?case by simp
next
  case (Cons v vs)
  let ?g = "g[i := (g ! i)[k := v]]"
  have k: "k < length (g ! i)" using Cons.prems by simp
  have gi: "?g ! i = (g ! i)[k := v]" using Cons.prems by simp
  have "fold (\<lambda>(j, cell_data) g.
             if j < length (g ! i) then g[i := (g ! i)[j := cell_data]] else g)
          (enumerate (Suc k) vs) ?g
        = ?g[i := take (Suc k) (?g ! i) @ vs @ drop (Suc k + length vs) (?g ! i)]"
    using Cons.prems by (intro Cons.IH) simp_all
  also have "\<dots> = g[i := take k (g ! i) @ (v # vs) @ drop (k + length (v # vs)) (g ! i)]"
  proof -
    have t: "take (Suc k) ((g ! i)[k := v]) = take k (g ! i) @ [v]"
      using k by (simp add: take_Suc_conv_app_nth)
    have d: "drop (Suc k + length vs) ((g ! i)[k := v]) = drop (Suc k + length vs) (g ! i)"
      by simp
    show ?thesis unfolding gi t d by simp
  qed
  finally show ?case using k by simp
qed

lemma fill_row_eq:
  assumes "i < length g" and "length row \<le> length (g ! i)"
  shows "fill_row g i row = g[i := row @ drop (length row) (g ! i)]"
  using fill_row_gen [of i g 0 row] assms by (simp add: fill_row_def)

lemma fill_table_gen:
  assumes "k + length rows \<le> length g"
    and "\<forall>(row, grow) \<in> set (zip rows (drop k g)). length row \<le> length grow"
  shows "fold (\<lambda>(i, row_data) g. fill_row g i row_data) (enumerate k rows) g
         = take k g @ map (\<lambda>(row, grow). row @ drop (length row) grow) (zip rows (drop k g))
             @ drop (k + length rows) g"
  using assms
proof (induction rows arbitrary: k g)
  case Nil
  then show ?case by simp
next
  case (Cons r rs)
  have k: "k < length g" using Cons.prems(1) by simp
  have dk: "drop k g = g ! k # drop (Suc k) g" using k by (simp add: Cons_nth_drop_Suc)
  have len: "length r \<le> length (g ! k)" using Cons.prems(2) dk by simp
  let ?g = "g[k := r @ drop (length r) (g ! k)]"
  have fr: "fill_row g k r = ?g" using k len by (rule fill_row_eq)
  have d': "drop (Suc k) ?g = drop (Suc k) g" by simp
  have "fold (\<lambda>(i, row_data) g. fill_row g i row_data) (enumerate (Suc k) rs) ?g
         = take (Suc k) ?g @ map (\<lambda>(row, grow). row @ drop (length row) grow) (zip rs (drop (Suc k) ?g))
             @ drop (Suc k + length rs) ?g"
    using Cons.prems dk by (intro Cons.IH) (simp_all add: d')
  also have "\<dots> = take k g @ map (\<lambda>(row, grow). row @ drop (length row) grow) (zip (r # rs) (drop k g))
             @ drop (k + length (r # rs)) g"
    using k by (simp add: dk d' take_Suc_conv_app_nth)
  finally show ?case by (simp add: fr)
qed

lemma fill_table_replicate:
  assumes "\<forall>row \<in> set rows. length row \<le> w"
  shows "fill_table (replicate (length rows) (replicate w [])) rows = map (pad_row w) rows"
proof -
  let ?g = "replicate (length rows) (replicate w ([]::pystr))"
  have z: "zip rows ?g = map (\<lambda>r. (r, replicate w [])) rows"
    by (induction rows) simp_all
  have p: "\<forall>(row, grow) \<in> set (zip rows (drop 0 ?g)). length row \<le> length grow"
    using assms by (simp add: z)
  have "fold (\<lambda>(i, row_data) g. fill_row g i row_data) (enumerate 0 rows) ?g
         = take 0 ?g @ map (\<lambda>(row, grow). row @ drop (length row) grow) (zip rows (drop 0 ?g))
             @ drop (0 + length rows) ?g"
    by (rule fill_table_gen [OF _ p]) simp
  then show ?thesis by (simp add: z pad_row_def fill_table_def)
qed

lemma fold_max_width: "t \<noteq> [] \<Longrightarrow> fold max (map length t) 0 = table_width t"
proof (cases t)
  case Nil
  assume "t \<noteq> []"
  with Nil show ?thesis by simp
next
  case (Cons a list)
  have "Max (set (map length (a # list))) = fold max (map length list) (length a)"
    using Max.set_eq_fold [of "length a" "map length list"] by simp
  then show ?thesis using Cons by (simp add: table_width_def)
qed

lemma table_width_upper: "row \<in> set t \<Longrightarrow> length row \<le> table_width t"
  by (simp add: table_width_def)

lemma table_width_map: "table_width (map (map f) t) = table_width t"
  by (simp add: table_width_def comp_def)

lemma accepted_nonempty_cell:
  assumes "has_meaningful_content U t = Inr True"
  shows "list_ex (list_ex (\<lambda>c. c \<noteq> [])) (map (map (clean_cell U)) t)"
proof -
  have "0 < length (filter (spec_filled U) (concat t))"
  proof (rule ccontr)
    assume "\<not> 0 < length (filter (spec_filled U) (concat t))"
    then have "length (filter (spec_filled U) (concat t)) = 0" by simp
    with assms show False
      by (simp add: has_meaningful_content_eq literal_0_3_def float_03)
         (simp add: float_div_def)
  qed
  then obtain c where c: "c \<in> set (concat t)" "spec_filled U c"
    by (metis filter_False length_0_conv less_numeral_extra(3))
  then obtain row where row: "row \<in> set t" "c \<in> set row" by auto
  have "clean_cell U c \<noteq> []"
    using c(2) by (cases c) (simp_all add: spec_filled_def clean_cell_def)
  then show ?thesis using row by (auto simp: list_ex_iff)
qed

lemma accepted_not_Nil: "has_meaningful_content U t = Inr True \<Longrightarrow> t \<noteq> []"
  by (auto simp: has_meaningful_content_def)

lemma add_table_accepted:
  assumes "has_meaningful_content U t = Inr True"
  shows "add_table_to_document U d t =
           (if hd t = [] then d else d @ [Table (rendered_table U t), Paragraph []])"
proof (cases t)
  case Nil
  with accepted_not_Nil [OF assms] show ?thesis by simp
next
  case (Cons r rs)
  show ?thesis
  proof (cases "r = []")
    case True
    then show ?thesis using Cons by (simp add: add_table_to_document_def)
  next
    case False
    let ?clean = "map (map (clean_cell U)) t"
    have "?clean \<noteq> []" using Cons by simp
    then have "fold max (map length ?clean) 0 = table_width ?clean"
      by (rule fold_max_width)
    then have w: "fold max (map length ?clean) 0 = table_width t"
      by (simp only: table_width_map)
    have "length r \<le> table_width t" using Cons by (simp add: table_width_upper)
    moreover have "0 < length r" using False by simp
    ultimately have pos: "table_width t \<noteq> 0" by linarith
    have rows: "\<forall>row \<in> set ?clean. length row \<le> table_width t"
      by (auto simp: table_width_upper)
    have fill: "fill_table (replicate (length ?clean) (replicate (table_width t) [])) ?clean
                = rendered_table U t"
      using fill_table_replicate [OF rows] by (simp add: rendered_table_def comp_def)
    have ex: "list_ex (list_ex (\<lambda>c. c \<noteq> [])) ?clean"
      by (rule accepted_nonempty_cell [OF assms])
    have ne: "?clean \<noteq> []" using Cons by simp
    have g: "\<not> (case t of [] \<Rightarrow> True | row0 # _ \<Rightarrow> row0 = [])" using Cons False by simp
    show ?thesis
      unfolding add_table_to_document_def Let_def
      using g ex ne pos fill w Cons False by simp
  qed
qed

lemma rendered_rectangular: "row \<in> set (rendered_table U t) \<Longrightarrow> length row = table_width t"
  by (auto simp: rendered_table_def pad_row_def dest: table_width_upper)

text \<open>
  C6. A table accepted by the filter is rendered, unless its first row is empty, as the
  grid of its cleaned cells with every row padded by empty strings to the maximum row
  length, followed by an empty paragraph; an absent cell is the empty string; every row
  of the grid has the width of the table, which is 3 for rows of 2, 3 and 1 cells.
\<close>

theorem ragged_rows_padded:
  assumes "has_meaningful_content U t = Inr True"
  shows "add_table_to_document U d t =
           (if hd t = [] then d else d @ [Table (rendered_table U t), Paragraph []]) \<and>
         length (rendered_table U t) = length t \<and>
         (\<forall>row \<in> set (rendered_table U t). length row = table_width t) \<and>
         clean_cell U None = [] \<and>
         (map length t = [2, 3, 1] \<longrightarrow> table_width t = 3)"
  using add_table_accepted [OF assms]
  by (auto simp: rendered_rectangular clean_cell_def rendered_table_def table_width_def)

theorem ragged_rows_padded_witness:
  "has_meaningful_content py_ascii ragged_table = Inr True \<and>
   map length ragged_table = [2, 3, 1] \<and>
   add_table_to_document py_ascii [] ragged_table =
     [Table [[ustr ''a'', ustr ''b'', []], [ustr ''c'', [], ustr ''e''], [ustr ''f'', [], []]],
      Paragraph []] \<and>
   table_width ragged_table = 3 \<and>
   map length (rendered_table py_ascii ragged_table) = [3, 3, 3]"
proof -
  have h: "has_meaningful_content py_ascii ragged_table = Inr True" by code_simp
  have l: "map length ragged_table = [2, 3, 1]" by (simp add: ragged_table_def)
  have r: "rendered_table py_ascii ragged_table =
       [[ustr ''a'', ustr ''b'', []], [ustr ''c'', [], ustr ''e''], [ustr ''f'', [], []]]"
    by code_simp
  have n: "hd ragged_table \<noteq> []" by (simp add: ragged_table_def)
  show ?thesis
    using ragged_rows_padded [OF h, of "[]"] h l r n by simp
qed

section \<open>The document builder\<close>

lemma keep_table_eq: "keep_table U t = Inr (has_meaningful_content U t = Inr True)"
  by (cases "t = []") (auto simp: keep_table_def and_e_def has_meaningful_content_eq)

lemma collect_tables_eq:
  "collect_tables U ts acc = Inr (acc @ filter (\<lambda>t. has_meaningful_content U t = Inr True) ts)"
  by (induction ts arbitrary: acc) (simp_all add: keep_table_eq)

lemma collect_pages_eq:
  "collect_pages U ps (ls, ts) =
     Inr (ls @ concat (map (\<lambda>p. split_lines (page_text p)) ps),
          ts @ filter (\<lambda>t. has_meaningful_content U t = Inr True) (concat (map page_tables ps)))"
  by (induction ps arbitrary: ls ts) (simp_all add: collect_tables_eq)

lemma fold_add_tables:
  assumes "\<forall>t \<in> set ts. has_meaningful_content U t = Inr True"
  shows "fold (\<lambda>table_data d. add_table_to_document U d table_data) ts d =
           d @ concat (map (\<lambda>t. [Table (rendered_table U t), Paragraph []])
                          (filter (\<lambda>t. hd t \<noteq> []) ts))"
  using assms by (induction ts arbitrary: d) (simp_all add: add_table_accepted)

lemma add_run_no_table: "\<forall>b \<in> set d. \<not> is_table b \<Longrightarrow> \<forall>b \<in> set (add_run d p s). \<not> is_table b"
proof -
  assume a: "\<forall>b \<in> set d. \<not> is_table b"
  show ?thesis
  proof (cases "p < length d")
    case True
    then have "d ! p \<in> set d" by simp
    with a have n: "\<not> is_table (d ! p)" by blast
    have "\<not> is_table (case d ! p of Paragraph t \<Rightarrow> Paragraph (t @ s) | b \<Rightarrow> b)"
      using n by (cases "d ! p") (simp_all add: is_table_def)
    then show ?thesis using a True
      by (auto simp: add_run_def dest!: set_update_subset_insert [THEN subsetD])
  next
    case False
    then show ?thesis using a by (simp add: add_run_def)
  qed
qed

lemma process_line_no_table:
  assumes "process_line U raw rest st = Inr st'" and "\<forall>b \<in> set (doc st). \<not> is_table b"
  shows "\<forall>b \<in> set (doc st'). \<not> is_table b"
proof -
  obtain mt where mt: "is_main_title U (str_strip U raw) = Inr mt"
    using is_main_title_total by blast
  obtain sub where sub: "is_subtitle U (str_strip U raw) = Inr sub"
    using is_subtitle_total by blast
  obtain c where c: "closes_paragraph U (next_line_of U rest) = Inr c"
    using closes_paragraph_total by blast
  have p1: "\<forall>b \<in> set (doc st @ [Paragraph []]). \<not> is_table b"
    using assms(2) by (simp add: is_table_def)
  note r1 = add_run_no_table [OF p1]
  note r2 = add_run_no_table [OF assms(2)]
  show ?thesis
    using assms r1 r2
    by (auto simp: process_line_def Let_def mt sub c is_table_def
        split: if_splits option.splits)
qed

lemma process_lines_no_table:
  "process_lines U ls st = Inr st' \<Longrightarrow> \<forall>b \<in> set (doc st). \<not> is_table b \<Longrightarrow>
     \<forall>b \<in> set (doc st'). \<not> is_table b"
proof (induction ls arbitrary: st)
  case Nil
  then show ?case by simp
next
  case (Cons l ls)
  obtain st1 where s1: "process_line U l ls st = Inr st1" using process_line_total by blast
  have "\<forall>b \<in> set (doc st1). \<not> is_table b"
    using process_line_no_table [OF s1 Cons.prems(2)] .
  moreover have "process_lines U ls st1 = Inr st'" using Cons.prems(1) s1 by simp
  ultimately show ?case by (rule Cons.IH [rotated])
qed

lemma process_text_content_no_table:
  assumes "process_text_content U [] ls = Inr d'"
  shows "\<forall>b \<in> set d'. \<not> is_table b"
proof -
  obtain st where st: "process_lines U ls \<lparr>doc = [], current_paragraph = None\<rparr> = Inr st"
    using process_lines_total by blast
  then have "d' = doc st" using assms by (simp add: process_text_content_def)
  moreover have "\<forall>b \<in> set (doc st). \<not> is_table b"
    using process_lines_no_table [OF st] by simp
  ultimately show ?thesis by simp
qed

lemma create_word_document_total: "\<exists>d. create_word_document U content = Inr d"
proof -
  obtain tb where
    "process_text_content U [] (concat (map (\<lambda>p. split_lines (page_text p)) content)) = Inr tb"
    using process_text_content_total by blast
  then show ?thesis
    unfolding create_word_document_def collect_pages_eq by simp
qed

text \<open>
  C5, as amended. The document is the blocks of the running text, none of them a table,
  followed by the accepted tables whose first row is not empty, page by page and in their
  order within the page, each rendered as a table and followed by an empty paragraph.
\<close>

theorem tables_follow_text:
  "\<exists>text_blocks.
     process_text_content U [] (concat (map (\<lambda>p. split_lines (page_text p)) content))
       = Inr text_blocks \<and>
     (\<forall>b \<in> set text_blocks. \<not> is_table b) \<and>
     create_word_document U content =
       Inr (text_blocks @
            concat (map (\<lambda>t. [Table (rendered_table U t), Paragraph []])
              (filter (\<lambda>t. hd t \<noteq> [])
                 (filter (\<lambda>t. has_meaningful_content U t = Inr True)
                    (concat (map page_tables content))))))"
proof -
  let ?ls = "concat (map (\<lambda>p. split_lines (page_text p)) content)"
  let ?ts = "filter (\<lambda>t. has_meaningful_content U t = Inr True) (concat (map page_tables content))"
  obtain tb where tb: "process_text_content U [] ?ls = Inr tb"
    using process_text_content_total by blast
  have nt: "\<forall>b \<in> set tb. \<not> is_table b" by (rule process_text_content_no_table [OF tb])
  have "\<forall>t \<in> set ?ts. has_meaningful_content U t = Inr True" by simp
  then have f: "fold (\<lambda>table_data d. add_table_to_document U d table_data) ?ts tb =
           tb @ concat (map (\<lambda>t. [Table (rendered_table U t), Paragraph []])
                          (filter (\<lambda>t. hd t \<noteq> []) ?ts))"
    by (rule fold_add_tables)
  have "create_word_document U content =
       Inr (tb @ concat (map (\<lambda>t. [Table (rendered_table U t), Paragraph []])
              (filter (\<lambda>t. hd t \<noteq> []) ?ts)))"
    unfolding create_word_document_def collect_pages_eq
    by (simp add: tb f del: filter_filter)
  with tb nt show ?thesis by blast
qed

theorem tables_follow_text_witness:
  "\<not> is_table (Paragraph (ustr ''x'')) \<and>
   create_word_document py_ascii [page_with (ustr ''x'') [table_empty_first_row, ragged_table]]
     = Inr ([Paragraph (ustr ''x'')] @
            [Table [[ustr ''a'', ustr ''b'', []], [ustr ''c'', [], ustr ''e''], [ustr ''f'', [], []]],
             Paragraph []])"
proof -
  let ?content = "[page_with (ustr ''x'') [table_empty_first_row, ragged_table]]"
  have e: "process_text_content py_ascii [] (concat (map (\<lambda>p. split_lines (page_text p)) ?content))
             = Inr [Paragraph (ustr ''x'')]" by code_simp
  have t: "concat (map (\<lambda>t. [Table (rendered_table py_ascii t), Paragraph []])
              (filter (\<lambda>t. hd t \<noteq> [])
                 (filter (\<lambda>t. has_meaningful_content py_ascii t = Inr True)
                    (concat (map page_tables ?content)))))
           = [Table [[ustr ''a'', ustr ''b'', []], [ustr ''c'', [], ustr ''e''], [ustr ''f'', [], []]],
              Paragraph []]" by code_simp
  show ?thesis
    using tables_follow_text [of py_ascii ?content] unfolding e t by auto
qed

text \<open>
  C5, as stated, fails: a table that the filter accepts and whose first row is empty is
  not written to the document; and a table that is written is followed by a paragraph.
\<close>

theorem tables_follow_text_counterexample:
  "has_meaningful_content py_ascii table_empty_first_row = Inr True \<and>
   create_word_document py_ascii [page_with (ustr ''x'') [table_empty_first_row]]
     = Inr [Paragraph (ustr ''x'')] \<and>
   create_word_document py_ascii [page_with (ustr ''x'') [ragged_table]]
     = Inr [Paragraph (ustr ''x''),
            Table [[ustr ''a'', ustr ''b'', []], [ustr ''c'', [], ustr ''e''], [ustr ''f'', [], []]],
            Paragraph []]"
  by code_simp

section \<open>No engine operation raises\<close>

text \<open>
  C10. With an index into an empty string and a division by zero as the two ways to
  raise, the title test, the subtitle test, the classification of a line, the decision
  on closing a paragraph, the loop body, the assembly of a line sequence, the table
  filter and the document builder return a value for every input.
\<close>

theorem engine_never_raises:
  "(\<exists>b. is_main_title U line = Inr b) \<and>
   (\<exists>b. is_subtitle U line = Inr b) \<and>
   (\<exists>c. classify U line = Inr c) \<and>
   (\<exists>b. closes_paragraph U line = Inr b) \<and>
   (\<exists>st'. process_line U raw rest st = Inr st') \<and>
   (\<exists>d'. process_text_content U d text_lines = Inr d') \<and>
   (\<exists>b. has_meaningful_content U table_data = Inr b) \<and>
   (\<exists>d'. create_word_document U content = Inr d')"
proof -
  obtain mt where mt: "is_main_title U line = Inr mt" using is_main_title_total by blast
  obtain sub where sub: "is_subtitle U line = Inr sub" using is_subtitle_total by blast
  have "\<exists>c. classify U line = Inr c" by (simp add: classify_def mt sub)
  then show ?thesis
    using is_main_title_total is_subtitle_total closes_paragraph_total process_line_total
      process_text_content_total create_word_document_total
    by (simp add: has_meaningful_content_eq)
qed

section \<open>Batch conversion\<close>

lemma validate_pdf_files_eq:
  "checks_return U env fs \<Longrightarrow> validate_pdf_files U env fs = Inr (filter (valid_pdf U env) fs)"
proof (induction fs)
  case Nil
  then show ?case by simp
next
  case (Cons f fs)
  then have ih: "validate_pdf_files U env fs = Inr (filter (valid_pdf U env) fs)"
    by (simp add: checks_return_def)
  show ?case
  proof (cases "endswith (str_lower U f) (ustr ''.pdf'')")
    case True
    then obtain b where b: "path_exists env f = Inr b"
      using Cons.prems by (auto simp: checks_return_def)
    then have "valid_pdf U env f = b" using True by (simp add: valid_pdf_def)
    then show ?thesis using True ih b by simp
  next
    case False
    then have "\<not> valid_pdf U env f" by (simp add: valid_pdf_def)
    then show ?thesis using False ih by simp
  qed
qed

lemma validate_pdf_files_raises:
  assumes "checks_return U env fs" and "endswith (str_lower U f) (ustr ''.pdf'')"
    and "path_exists env f = Inl e"
  shows "validate_pdf_files U env (fs @ f # gs) = Inl e"
  using assms(1)
proof (induction fs)
  case Nil
  then show ?case using assms(2,3) by simp
next
  case (Cons h hs)
  then have ih: "validate_pdf_files U env (hs @ f # gs) = Inl e"
    by (simp add: checks_return_def)
  show ?case
  proof (cases "endswith (str_lower U h) (ustr ''.pdf'')")
    case True
    then obtain b where "path_exists env h = Inr b"
      using Cons.prems by (auto simp: checks_return_def)
    then show ?thesis using True ih by simp
  next
    case False
    then show ?thesis using ih by simp
  qed
qed





lemma convert_all_fold:
  "checks_return U env fs \<Longrightarrow>
     convert_all U env fs =
       Inr (fold (record_conversion U env) (filter (valid_pdf U env) fs)
              \<lparr>successful = 0, failed = 0, files = []\<rparr>)"
  by (simp add: convert_all_def validate_pdf_files_eq)

lemma valid_checks_return: "\<forall>f \<in> set fs. valid_pdf U env f \<Longrightarrow> checks_return U env fs"
  by (auto simp: checks_return_def valid_pdf_def)

lemma convert_fails:
  assumes "extract_text_from_pdf U env f = [] \<or>
           (\<forall>d. \<not> doc_save env (output_path env (path_stem env f @ ustr ''.docx'')) d)"
  shows "convert_pdf_to_word U env f = None"
  using assms by (auto simp: convert_pdf_to_word_def Let_def split: sum.splits)




text \<open>
  C9. For three valid files of which the first and the third convert and the second
  yields no page, or cannot be saved, the batch result has a success entry for the
  first, a failure entry for the second and a success entry for the third, in this
  order, with two successes and one failure.
\<close>

theorem batch_isolation:
  assumes "\<forall>f \<in> set [f1, f2, f3]. valid_pdf U env f"
    and "convert_pdf_to_word U env f1 = Some w1" and "w1 \<noteq> []"
    and "extract_text_from_pdf U env f2 = [] \<or>
         (\<forall>d. \<not> doc_save env (output_path env (path_stem env f2 @ ustr ''.docx'')) d)"
    and "convert_pdf_to_word U env f3 = Some w3" and "w3 \<noteq> []"
  shows "convert_all U env [f1, f2, f3] =
           Inr \<lparr>successful = 2, failed = 1,
                files = [\<lparr>pdf = f1, word = Some w1, status = ''success''\<rparr>,
                         \<lparr>pdf = f2, word = None, status = ''failed''\<rparr>,
                         \<lparr>pdf = f3, word = Some w3, status = ''success''\<rparr>]\<rparr>"
proof -
  have v: "filter (valid_pdf U env) [f1, f2, f3] = [f1, f2, f3]" using assms(1) by simp
  have n: "convert_pdf_to_word U env f2 = None" by (rule convert_fails [OF assms(4)])
  have c: "checks_return U env [f1, f2, f3]" using assms(1) by (rule valid_checks_return)
  show ?thesis
    unfolding convert_all_fold [OF c] v
    by (simp add: record_conversion_def assms(2,3,5,6) n)
qed

theorem batch_isolation_witness:
  "valid_pdf py_ascii demo_env (ustr ''a.pdf'') \<and>
   valid_pdf py_ascii demo_env (ustr ''b.pdf'') \<and>
   valid_pdf py_ascii demo_env (ustr ''c.pdf'') \<and>
   convert_pdf_to_word py_ascii demo_env (ustr ''a.pdf'') = Some (ustr ''out/a.docx'') \<and>
   extract_text_from_pdf py_ascii demo_env (ustr ''b.pdf'') = [] \<and>
   convert_pdf_to_word py_ascii demo_env (ustr ''c.pdf'') = Some (ustr ''out/c.docx'') \<and>
   convert_all py_ascii demo_env [ustr ''a.pdf'', ustr ''b.pdf'', ustr ''c.pdf''] =
       Inr \<lparr>successful = 2, failed = 1,
            files = [\<lparr>pdf = ustr ''a.pdf'', word = Some (ustr ''out/a.docx''), status = ''success''\<rparr>,
                     \<lparr>pdf = ustr ''b.pdf'', word = None, status = ''failed''\<rparr>,
                     \<lparr>pdf = ustr ''c.pdf'', word = Some (ustr ''out/c.docx''), status = ''success''\<rparr>]\<rparr>"
proof -
  have v: "\<forall>f \<in> set [ustr ''a.pdf'', ustr ''b.pdf'', ustr ''c.pdf'']. valid_pdf py_ascii demo_env f"
    by code_simp
  have a: "convert_pdf_to_word py_ascii demo_env (ustr ''a.pdf'') = Some (ustr ''out/a.docx'')"
    by code_simp
  have a': "ustr ''out/a.docx'' \<noteq> []" by (simp add: ustr_def)
  have b: "extract_text_from_pdf py_ascii demo_env (ustr ''b.pdf'') = []" by code_simp
  have c: "convert_pdf_to_word py_ascii demo_env (ustr ''c.pdf'') = Some (ustr ''out/c.docx'')"
    by code_simp
  have c': "ustr ''out/c.docx'' \<noteq> []" by (simp add: ustr_def)
  show ?thesis
    using batch_isolation [OF v a a' disjI1 [OF b] c c'] v a b c by simp
qed

end
